theory Spec2Isabelle
  imports Complex_Main
begin

section \<open>Values, closures and the state of the page\<close>

text \<open>
  The library (\<^verbatim>\<open>aem-cwv-helper.js\<close>) is event-loop code: every function returns at once
  and leaves closures behind in the host's queues (timers, animation frames, idle callbacks,
  event listeners) and in promise reactions. The embedding keeps one record, \<open>world\<close>, for
  the state of the page, and represents every closure the source creates by a constructor
  that names the place where the source creates it; running the closure is a function on
  \<open>world\<close>. The host (browser) decides what runs next: that choice is the \<open>action\<close> list
  given to \<open>exec\<close>, so a property proved for every action list holds for every order in
  which a browser may fire callbacks.

  What the embedding leaves to the host, or abstracts:
  \<^item> a timer, an idle callback or a frame may fire at any time and in any order (a browser
    orders timers by their delay; every such order is one of the action lists);
  \<^item> a promise job is an action of its own, and the host may pick any reaction whose promise
    is settled (the engine runs jobs first-in first-out before the next task; that order is
    one of the action lists). A reaction never runs inside the call that registers it;
  \<^item> an async function and the promise it returns or awaits are one promise here: the extra
    job turns that an engine spends on adopting a promise are not counted;
  \<^item> \<^verbatim>\<open>performance.now()\<close> is a real number that never decreases: time passes when the host
    lets it pass (\<open>Advance\<close>) and while a caller-supplied function runs. Rounding of
    floating-point sums is not modelled (sums with 0 and with Infinity are exact anyway);
  \<^item> the items of an iteration are a list that does not change while the iteration runs;
  \<^item> the browser fires \<^verbatim>\<open>visibilitychange\<close> at \<^verbatim>\<open>document\<close> and \<^verbatim>\<open>pagehide\<close> at \<^verbatim>\<open>window\<close>; the
    source registers its listeners at \<^verbatim>\<open>document\<close>, and only those are kept in the state;
  \<^item> the frame and idle polyfills at the top of the source are not used: the host's own
    \<^verbatim>\<open>requestAnimationFrame\<close>, \<^verbatim>\<open>cancelAnimationFrame\<close> and \<^verbatim>\<open>requestIdleCallback\<close> are
    (\<open>Fire\<close> can also run a single frame request, as the timer-based polyfill would).
\<close>

datatype jsval = Undefined | JNum int | JStr string

datatype completion = Return jsval | Throw jsval

text \<open>A caller-supplied function: the time it takes (clock units) and how it completes.\<close>

type_synonym userfn = "jsval list \<Rightarrow> nat \<times> completion"

text \<open>A JavaScript number as far as \<^verbatim>\<open>performance.now() + limit\<close> and \<^verbatim>\<open>>=\<close> need it.\<close>

datatype jsnum = Num real | PosInfinity | NegInfinity | NaN

datatype settle = Pending | Fulfilled jsval | Rejected jsval

datatype evtype = VisibilityChange | PageHide

datatype source = Raf | Timer nat | Idle | SchedulerYield | LinkLoad

record link =
  link_rel :: string
  link_href :: jsval

text \<open>\<^verbatim>\<open>dl.push\<close>: the page's own function, or the arrow function of \<^verbatim>\<open>patchDatalayer\<close> around it.\<close>

datatype pushfn = Orig userfn | Patched pushfn

record datalayer =
  push :: pushfn

text \<open>
  Closures handed to the host.
  \<^item> \<open>Resolve p v\<close>: the \<^verbatim>\<open>resolve\<close> function of promise \<open>p\<close>, called with \<open>v\<close>;
  \<^item> \<open>PaintFrame p\<close>: \<^verbatim>\<open>() => { window.setTimeout(resolve); }\<close> of \<^verbatim>\<open>afterNextPaint\<close>;
  \<^item> \<open>YieldFrame p\<close>: the frame callback of \<^verbatim>\<open>yieldUnlessUrgent\<close> (fallback path);
  \<^item> \<open>YieldTimeout p\<close>: its inner timer callback, \<^verbatim>\<open>pendingResolvers.delete(resolve); resolve()\<close>;
  \<^item> \<open>RunFn fn args p\<close>: \<^verbatim>\<open>() => { resolve(fn(...args)); }\<close>;
  \<^item> \<open>AppendLink l p\<close>: the idle callback of \<^verbatim>\<open>prefetchResources\<close>.
\<close>

datatype cb =
    Resolve nat jsval
  | PaintFrame nat
  | YieldFrame nat
  | YieldTimeout nat
  | RunFn userfn "jsval list" nat
  | AppendLink link nat

text \<open>
  Promise reactions (what runs after an \<^verbatim>\<open>await\<close> or in a \<^verbatim>\<open>.then\<close>).
  \<^item> \<open>IterK out fn limit item rest\<close>: the rest of \<^verbatim>\<open>splitLongIteration\<close> after
    \<^verbatim>\<open>await splitLongTask()\<close>, suspended before \<open>item\<close>;
  \<^item> \<open>PushK f args\<close>: \<^verbatim>\<open>() => { originalDataLayerPush(...args); }\<close>;
  \<^item> \<open>PaintK fn out\<close>: \<^verbatim>\<open>return fn()\<close> of \<^verbatim>\<open>afterNextPaint\<close>;
  \<^item> \<open>UserK tag\<close>: a continuation of the page's own code.
\<close>

datatype cont =
    IterK nat userfn jsnum jsval "jsval list"
  | PushK pushfn "jsval list"
  | PaintK userfn nat
  | UserK nat

datatype event =
    Called nat "jsval list"
  | OrigPush nat "jsval list"
  | Yielded nat
  | Ran nat
  | Uncaught jsval

record world =
  visible :: bool
  scheduler_yield :: bool
  global_url :: "jsval option"
  now :: real
  nextId :: nat
  settled :: "nat \<Rightarrow> settle"
  reactions :: "(nat \<times> cont) list"
  pendingResolvers :: "nat list"
  listeners :: "(evtype \<times> nat) list"
  hostq :: "(nat \<times> source \<times> cb) list"
  doc_head :: "link list"
  trace :: "event list"

text \<open>
  \<open>visible\<close> is \<^verbatim>\<open>document.visibilityState === 'visible'\<close>, \<open>scheduler_yield\<close> is
  \<^verbatim>\<open>window.scheduler?.yield\<close> being there, \<open>global_url\<close> is what the free identifier
  \<^verbatim>\<open>url\<close> is bound to in the global scope (\<open>None\<close>: unbound), \<open>now\<close> is
  \<^verbatim>\<open>performance.now()\<close>. Promises, timers and frame requests are named by numbers drawn
  from \<open>nextId\<close>. \<open>pendingResolvers\<close> is the \<^verbatim>\<open>Set\<close> of the source in insertion order.
  \<open>reactions\<close> holds the continuations not yet run; one is ready as soon as its promise
  is settled. \<open>trace\<close> records what an observer of the page can see.
\<close>

definition init :: "bool \<Rightarrow> bool \<Rightarrow> jsval option \<Rightarrow> real \<Rightarrow> world" where
  "init vis sy gu t =
     \<lparr> visible = vis, scheduler_yield = sy, global_url = gu, now = t, nextId = 0,
       settled = (\<lambda>_. Pending), reactions = [], pendingResolvers = [], listeners = [],
       hostq = [], doc_head = [], trace = [] \<rparr>"

subsection \<open>Promises and host queues\<close>

definition newPromise :: "world \<Rightarrow> nat \<times> world" where
  "newPromise w = (nextId w, w\<lparr>nextId := Suc (nextId w)\<rparr>)"

text \<open>A resolve function called on a promise that is already settled does nothing.\<close>

definition resolvePromise :: "nat \<Rightarrow> jsval \<Rightarrow> world \<Rightarrow> world" where
  "resolvePromise p v w =
     (if settled w p = Pending then w\<lparr>settled := (settled w)(p := Fulfilled v)\<rparr> else w)"

definition rejectPromise :: "nat \<Rightarrow> jsval \<Rightarrow> world \<Rightarrow> world" where
  "rejectPromise p e w =
     (if settled w p = Pending then w\<lparr>settled := (settled w)(p := Rejected e)\<rparr> else w)"

definition thenK :: "nat \<Rightarrow> cont \<Rightarrow> world \<Rightarrow> world" where
  "thenK p k w = w\<lparr>reactions := reactions w @ [(p, k)]\<rparr>"

definition addHost :: "source \<Rightarrow> cb \<Rightarrow> world \<Rightarrow> nat \<times> world" where
  "addHost src c w =
     (nextId w, w\<lparr>nextId := Suc (nextId w), hostq := hostq w @ [(nextId w, src, c)]\<rparr>)"

definition requestAnimationFrame :: "cb \<Rightarrow> world \<Rightarrow> nat \<times> world" where
  "requestAnimationFrame c w = addHost Raf c w"

definition setTimeout :: "cb \<Rightarrow> nat \<Rightarrow> world \<Rightarrow> nat \<times> world" where
  "setTimeout c delay w = addHost (Timer delay) c w"

definition requestIdleCallback :: "cb \<Rightarrow> world \<Rightarrow> nat \<times> world" where
  "requestIdleCallback c w = addHost Idle c w"

text \<open>\<^verbatim>\<open>cancelAnimationFrame(undefined)\<close> (the first call of a debounced wrapper) does nothing.\<close>

definition cancelAnimationFrame :: "nat option \<Rightarrow> world \<Rightarrow> world" where
  "cancelAnimationFrame h w =
     (case h of
        None \<Rightarrow> w
      | Some i \<Rightarrow> w\<lparr>hostq := filter (\<lambda>(j, src, c). \<not> (j = i \<and> src = Raf)) (hostq w)\<rparr>)"

definition addEventListener :: "evtype \<Rightarrow> nat \<Rightarrow> world \<Rightarrow> world" where
  "addEventListener ev c w =
     (if (ev, c) \<in> set (listeners w) then w else w\<lparr>listeners := listeners w @ [(ev, c)]\<rparr>)"

definition removeEventListener :: "evtype \<Rightarrow> nat \<Rightarrow> world \<Rightarrow> world" where
  "removeEventListener ev c w = w\<lparr>listeners := removeAll (ev, c) (listeners w)\<rparr>"

definition setAdd :: "nat \<Rightarrow> nat list \<Rightarrow> nat list" where
  "setAdd x xs = (if x \<in> set xs then xs else xs @ [x])"

definition callFn :: "nat \<Rightarrow> userfn \<Rightarrow> jsval list \<Rightarrow> world \<Rightarrow> completion \<times> world" where
  "callFn tag fn args w =
     (snd (fn args),
      w\<lparr>now := now w + real (fst (fn args)), trace := trace w @ [Called tag args]\<rparr>)"

subsection \<open>The suspension registry and the yield primitive\<close>

definition resolvePendingPromises :: "world \<Rightarrow> world" where
  "resolvePendingPromises w =
     (fold (\<lambda>p. resolvePromise p Undefined) (pendingResolvers w) w)\<lparr>pendingResolvers := []\<rparr>"

text \<open>The \<^verbatim>\<open>cleanup\<close> closure of the call of \<^verbatim>\<open>yieldUnlessUrgent\<close> that made promise \<open>c\<close>.\<close>

definition cleanup :: "nat \<Rightarrow> world \<Rightarrow> world" where
  "cleanup c w =
     resolvePendingPromises
       (removeEventListener PageHide c (removeEventListener VisibilityChange c w))"

definition yieldUnlessUrgent :: "world \<Rightarrow> nat \<times> world" where
  "yieldUnlessUrgent w =
     (case newPromise w of (p, w0) \<Rightarrow>
        let w1 = w0\<lparr>pendingResolvers := setAdd p (pendingResolvers w0)\<rparr> in
        if visible w1 then
          let w2 = addEventListener PageHide p (addEventListener VisibilityChange p w1) in
          if scheduler_yield w2 then (p, snd (addHost SchedulerYield (Resolve p Undefined) w2))
          else (p, snd (requestAnimationFrame (YieldFrame p) w2))
        else (p, resolvePendingPromises w1))"

definition splitLongTask :: "world \<Rightarrow> nat \<times> world" where
  "splitLongTask w = yieldUnlessUrgent w"

subsection \<open>Chunked iteration\<close>

fun num_add :: "real \<Rightarrow> jsnum \<Rightarrow> jsnum" where
  "num_add t (Num l) = Num (t + l)"
| "num_add t PosInfinity = PosInfinity"
| "num_add t NegInfinity = NegInfinity"
| "num_add t NaN = NaN"

fun num_ge :: "real \<Rightarrow> jsnum \<Rightarrow> bool" where
  "num_ge t (Num d) = (d \<le> t)"
| "num_ge t PosInfinity = False"
| "num_ge t NegInfinity = True"
| "num_ge t NaN = False"

text \<open>
  The \<^verbatim>\<open>for\<close> loop of \<^verbatim>\<open>splitLongIteration\<close>, from the deadline check of the next item on.
  At an \<^verbatim>\<open>await\<close> the function returns to the host with the rest of the loop stored as
  the reaction \<open>IterK\<close> of the yield promise; \<open>out\<close> is the promise the async function
  returned to its caller.
\<close>

fun iterLoop :: "nat \<Rightarrow> userfn \<Rightarrow> jsnum \<Rightarrow> jsnum \<Rightarrow> jsval list \<Rightarrow> world \<Rightarrow> world" where
  "iterLoop out fn limit deadline [] w = resolvePromise out Undefined w"
| "iterLoop out fn limit deadline (item # rest) w =
     (if num_ge (now w) deadline then
        (case splitLongTask w of (p, w1) \<Rightarrow>
           thenK p (IterK out fn limit item rest) (w1\<lparr>trace := trace w1 @ [Yielded out]\<rparr>))
      else
        (case callFn out fn [item] w of
           (Throw e, w1) \<Rightarrow> rejectPromise out e w1
         | (Return r, w1) \<Rightarrow> iterLoop out fn limit deadline rest w1))"

text \<open>Resuming after the \<^verbatim>\<open>await\<close>: the deadline is updated, then \<^verbatim>\<open>fn(item)\<close> runs.\<close>

definition iterResume :: "nat \<Rightarrow> userfn \<Rightarrow> jsnum \<Rightarrow> jsval \<Rightarrow> jsval list \<Rightarrow> world \<Rightarrow> world" where
  "iterResume out fn limit item rest w =
     (let deadline = num_add (now w) limit in
      case callFn out fn [item] w of
        (Throw e, w1) \<Rightarrow> rejectPromise out e w1
      | (Return r, w1) \<Rightarrow> iterLoop out fn limit deadline rest w1)"

definition splitLongIteration :: "jsval list \<Rightarrow> userfn \<Rightarrow> jsnum \<Rightarrow> world \<Rightarrow> nat \<times> world" where
  "splitLongIteration items fn limit w =
     (case newPromise w of (out, w0) \<Rightarrow>
        let deadline = num_add (now w0) limit in
        (out, iterLoop out fn limit deadline items w0))"

subsection \<open>Deferred execution, data layer, debounce, prefetch\<close>

definition afterNextPaint :: "userfn \<Rightarrow> world \<Rightarrow> nat \<times> world" where
  "afterNextPaint fn w =
     (case newPromise w of (out, w0) \<Rightarrow>
      case newPromise w0 of (p, w1) \<Rightarrow>
        let w2 = snd (setTimeout (Resolve p Undefined) 100 w1);
            w3 = snd (requestAnimationFrame (PaintFrame p) w2)
        in (out, thenK p (PaintK fn out) w3))"

definition performAsyncUiUpdate :: "userfn \<Rightarrow> world \<Rightarrow> nat \<times> world" where
  "performAsyncUiUpdate fn w = afterNextPaint (\<lambda>args. fn []) w"

definition patchDatalayer :: "datalayer \<Rightarrow> datalayer" where
  "patchDatalayer dl = dl\<lparr>push := Patched (push dl)\<rparr>"

text \<open>
  Calling \<^verbatim>\<open>dl.push(...args)\<close>. \<open>via\<close> names the promise whose reaction makes the call
  (for the trace). The patched function has a block body with no \<^verbatim>\<open>return\<close>.
\<close>

fun invokePush :: "nat \<Rightarrow> pushfn \<Rightarrow> jsval list \<Rightarrow> world \<Rightarrow> completion \<times> world" where
  "invokePush via (Orig fn) args w =
     (snd (fn args),
      w\<lparr>now := now w + real (fst (fn args)), trace := trace w @ [OrigPush via args]\<rparr>)"
| "invokePush via (Patched f) args w =
     (case splitLongTask w of (p, w1) \<Rightarrow> (Return Undefined, thenK p (PushK f args) w1))"


text \<open>
  \<^verbatim>\<open>prefetchResources(urls)\<close> reads the identifier \<^verbatim>\<open>url\<close>, which the function does not
  declare: an unbound identifier throws a ReferenceError, which the async function turns
  into a rejection. Otherwise it hands \<^verbatim>\<open>callCostlyApi\<close> a closure, which that function
  passes to \<^verbatim>\<open>requestIdleCallback\<close> (\<open>AppendLink\<close>): it appends the link and returns a promise
  that the link's \<^verbatim>\<open>onload\<close> resolves (a callback of the host with source \<open>LinkLoad\<close>).
\<close>

definition prefetchResources :: "jsval list \<Rightarrow> world \<Rightarrow> nat \<times> world" where
  "prefetchResources urls w =
     (case newPromise w of (out, w0) \<Rightarrow>
        (case global_url w0 of
           None \<Rightarrow> (out, rejectPromise out (JStr ''ReferenceError: url is not defined'') w0)
         | Some u \<Rightarrow>
             (out, snd (requestIdleCallback
                (AppendLink \<lparr>link_rel = ''prefetch'', link_href = u\<rparr> out) w0))))"

subsection \<open>The event loop\<close>

fun runCb :: "cb \<Rightarrow> world \<Rightarrow> world" where
  "runCb (Resolve p v) w = resolvePromise p v w"
| "runCb (PaintFrame p) w = snd (setTimeout (Resolve p Undefined) 0 w)"
| "runCb (YieldFrame p) w = snd (setTimeout (YieldTimeout p) 0 w)"
| "runCb (YieldTimeout p) w =
     resolvePromise p Undefined (w\<lparr>pendingResolvers := removeAll p (pendingResolvers w)\<rparr>)"
| "runCb (RunFn fn args p) w =
     (case callFn p fn args w of
        (Return v, w1) \<Rightarrow> resolvePromise p v w1
      | (Throw e, w1) \<Rightarrow> w1\<lparr>trace := trace w1 @ [Uncaught e]\<rparr>)"
| "runCb (AppendLink l p) w =
     snd (addHost LinkLoad (Resolve p (JStr ''load'')) (w\<lparr>doc_head := doc_head w @ [l]\<rparr>))"

fun runCont :: "nat \<Rightarrow> cont \<Rightarrow> settle \<Rightarrow> world \<Rightarrow> world" where
  "runCont p (IterK out fn limit item rest) s w =
     (case s of Rejected e \<Rightarrow> rejectPromise out e w | _ \<Rightarrow> iterResume out fn limit item rest w)"
| "runCont p (PushK f args) s w =
     (case s of
        Rejected e \<Rightarrow> w
      | _ \<Rightarrow> (case invokePush p f args w of
                (Throw e, w1) \<Rightarrow> w1\<lparr>trace := trace w1 @ [Uncaught e]\<rparr>
              | (Return r, w1) \<Rightarrow> w1))"
| "runCont p (PaintK fn out) s w =
     (case s of
        Rejected e \<Rightarrow> rejectPromise out e w
      | _ \<Rightarrow> (case callFn out fn [] w of
                (Throw e, w1) \<Rightarrow> rejectPromise out e w1
              | (Return r, w1) \<Rightarrow> resolvePromise out r w1))"
| "runCont p (UserK tag) s w = w"

fun takeReaction :: "nat \<Rightarrow> (nat \<times> cont) list \<Rightarrow> (cont \<times> (nat \<times> cont) list) option" where
  "takeReaction p [] = None"
| "takeReaction p ((q, k) # rs) =
     (if q = p then Some (k, rs)
      else (case takeReaction p rs of
              None \<Rightarrow> None
            | Some (k', rs') \<Rightarrow> Some (k', (q, k) # rs')))"

fun takeHost :: "nat \<Rightarrow> (nat \<times> source \<times> cb) list \<Rightarrow> (cb \<times> (nat \<times> source \<times> cb) list) option" where
  "takeHost i [] = None"
| "takeHost i ((j, src, c) # hs) =
     (if j = i then Some (c, hs)
      else (case takeHost i hs of
              None \<Rightarrow> None
            | Some (c', hs') \<Rightarrow> Some (c', (j, src, c) # hs')))"

text \<open>A promise job: the oldest reaction of a settled promise \<open>p\<close> runs, once.\<close>

definition job :: "nat \<Rightarrow> world \<Rightarrow> world" where
  "job p w =
     (if settled w p = Pending then w
      else (case takeReaction p (reactions w) of
              None \<Rightarrow> w
            | Some (k, rs) \<Rightarrow>
                runCont p k (settled w p) (w\<lparr>reactions := rs, trace := trace w @ [Ran p]\<rparr>)))"

text \<open>The host fires one queued callback (a timer, an idle callback, a load, a yield).\<close>

definition fire :: "nat \<Rightarrow> world \<Rightarrow> world" where
  "fire i w =
     (case takeHost i (hostq w) of
        None \<Rightarrow> w
      | Some (c, hs) \<Rightarrow> runCb c (w\<lparr>hostq := hs\<rparr>))"

text \<open>An animation frame: the callbacks requested so far are taken off the queue and run in order.\<close>

definition frame :: "world \<Rightarrow> world" where
  "frame w =
     fold (\<lambda>(i, src, c). runCb c) (filter (\<lambda>(i, src, c). src = Raf) (hostq w))
       (w\<lparr>hostq := filter (\<lambda>(i, src, c). src \<noteq> Raf) (hostq w)\<rparr>)"

text \<open>
  The listeners of \<^verbatim>\<open>document\<close> hear an event of type \<open>ev\<close>: those registered for it when the
  delivery starts run in order, one that was removed meanwhile is skipped.
\<close>

definition deliver :: "evtype \<Rightarrow> world \<Rightarrow> world" where
  "deliver ev w =
     fold (\<lambda>(e, c) w'. if (e, c) \<in> set (listeners w') then cleanup c w' else w')
       (filter (\<lambda>(e, c). e = ev) (listeners w)) w"

text \<open>
  The browser fires a lifecycle event at its own target: \<^verbatim>\<open>visibilitychange\<close> at the document,
  \<^verbatim>\<open>pagehide\<close> at the window. The path of an event fired at the window is the window alone,
  so the listeners of \<^verbatim>\<open>document\<close> do not hear it (the source registers none at \<^verbatim>\<open>window\<close>).
\<close>

datatype event_target = Window | Document

fun fired_at :: "evtype \<Rightarrow> event_target" where
  "fired_at VisibilityChange = Document"
| "fired_at PageHide = Window"

definition dispatch :: "evtype \<Rightarrow> world \<Rightarrow> world" where
  "dispatch ev w = (if fired_at ev = Document then deliver ev w else w)"

datatype action =
    Frame
  | Fire nat
  | Job nat
  | Dispatch evtype
  | SetVisible bool
  | Advance nat
  | CallYield nat
  | CallIterate "jsval list" userfn jsnum
  | CallPush pushfn "jsval list"
  | CallPerform userfn
  | CallPrefetch "jsval list"

text \<open>
  One step of the page: the host runs a task or a promise job, or the page's code calls
  the library. \<open>CallYield tag\<close> is \<^verbatim>\<open>splitLongTask().then(k)\<close> for a continuation \<open>k\<close> of the
  page; \<open>CallPush f args\<close> is \<^verbatim>\<open>dl.push(...args)\<close> on a data layer whose \<^verbatim>\<open>push\<close> was \<open>f\<close>
  when \<^verbatim>\<open>patchDatalayer(dl)\<close> ran.
\<close>

fun step :: "action \<Rightarrow> world \<Rightarrow> world" where
  "step Frame w = frame w"
| "step (Fire i) w = fire i w"
| "step (Job p) w = job p w"
| "step (Dispatch ev) w = dispatch ev w"
| "step (SetVisible b) w = w\<lparr>visible := b\<rparr>"
| "step (Advance n) w = w\<lparr>now := now w + real n\<rparr>"
| "step (CallYield tag) w = (case splitLongTask w of (p, w1) \<Rightarrow> thenK p (UserK tag) w1)"
| "step (CallIterate items fn limit) w = snd (splitLongIteration items fn limit w)"
| "step (CallPush f args) w = snd (invokePush 0 (push (patchDatalayer \<lparr>push = f\<rparr>)) args w)"
| "step (CallPerform fn) w = snd (performAsyncUiUpdate fn w)"
| "step (CallPrefetch urls) w = snd (prefetchResources urls w)"

definition exec :: "action list \<Rightarrow> world \<Rightarrow> world" where
  "exec acts w = fold step acts w"

subsection \<open>Image prioritisation\<close>

text \<open>
  An element carries content attributes and script properties; a document maps element
  identities to elements. A selector that does not parse makes \<^verbatim>\<open>querySelectorAll\<close> throw;
  one that parses selects elements by looking at the current document (so what it matches
  may depend on the attributes \<^verbatim>\<open>prioritizeImages\<close> writes).
\<close>

record element =
  attrs :: "string \<Rightarrow> string option"
  props :: "string \<Rightarrow> string option"

type_synonym document = "nat \<Rightarrow> element"

datatype dom_error = SyntaxError

type_synonym selector = "(document \<Rightarrow> nat list) option"

definition querySelectorAll :: "selector \<Rightarrow> document \<Rightarrow> dom_error + nat list" where
  "querySelectorAll sel doc = (case sel of None \<Rightarrow> Inl SyntaxError | Some m \<Rightarrow> Inr (m doc))"

definition setAttribute :: "string \<Rightarrow> string \<Rightarrow> element \<Rightarrow> element" where
  "setAttribute name v el = el\<lparr>attrs := (attrs el)(name \<mapsto> v)\<rparr>"

definition setProperty :: "string \<Rightarrow> string \<Rightarrow> element \<Rightarrow> element" where
  "setProperty name v el = el\<lparr>props := (props el)(name \<mapsto> v)\<rparr>"

definition prioritize :: "element \<Rightarrow> element" where
  "prioritize img =
     setProperty ''fetchpriority'' ''high''
       (setProperty ''loading'' ''eager''
          (setAttribute ''fetchpriority'' ''high''
             (setAttribute ''loading'' ''eager'' img)))"

definition prioritizeImages :: "selector \<Rightarrow> document \<Rightarrow> dom_error + document" where
  "prioritizeImages sel doc =
     (case querySelectorAll sel doc of
        Inl e \<Rightarrow> Inl e
      | Inr ids \<Rightarrow> Inr (fold (\<lambda>i d. d(i := prioritize (d i))) ids doc))"

text \<open>The elements \<^verbatim>\<open>selector\<close> matches in a document (none when it does not parse).\<close>

definition matched :: "selector \<Rightarrow> document \<Rightarrow> nat list" where
  "matched sel doc = (case querySelectorAll sel doc of Inl e \<Rightarrow> [] | Inr ids \<Rightarrow> ids)"

text \<open>
  Example inputs: an element with no attributes, and the document whose elements are all
  such; the selector \<^verbatim>\<open>img\<close> over elements 0, 1, 2; the selector \<^verbatim>\<open>:not([loading="eager"])\<close>
  over the same elements; and a selector list that matches element 0 and, once element 0
  carries \<^verbatim>\<open>loading="eager"\<close>, its sibling 1 (as \<^verbatim>\<open>#a, #a[loading="eager"] + img\<close> does).
\<close>

definition img0 :: element where
  "img0 = \<lparr>attrs = Map.empty, props = Map.empty\<rparr>"

definition blank :: document where
  "blank i = img0"

definition all_imgs :: "document \<Rightarrow> nat list" where
  "all_imgs doc = [0, 1, 2]"

definition lazy_imgs :: "document \<Rightarrow> nat list" where
  "lazy_imgs doc = filter (\<lambda>i. attrs (doc i) ''loading'' \<noteq> Some ''eager'') [0, 1, 2]"

definition after_eager :: "document \<Rightarrow> nat list" where
  "after_eager doc = (if attrs (doc 0) ''loading'' = Some ''eager'' then [0, 1] else [0])"

section \<open>Invariants of the page state\<close>

text \<open>
  Every call of \<^verbatim>\<open>yieldUnlessUrgent\<close> on a visible page registers its \<^verbatim>\<open>cleanup\<close> for both
  lifecycle events, and a \<^verbatim>\<open>cleanup\<close> leaves the two lists together; so the listeners come in
  pairs, and a registry that is not empty is watched by at least one pair.
\<close>

definition guarded :: "world \<Rightarrow> bool" where
  "guarded w =
     (list_all (\<lambda>(e, c). (VisibilityChange, c) \<in> set (listeners w) \<and> (PageHide, c) \<in> set (listeners w))
        (listeners w)
      \<and> (pendingResolvers w = [] \<or> listeners w \<noteq> []))"

text \<open>
  A promise of the library gets at most one reaction (the \<^verbatim>\<open>await\<close> or \<^verbatim>\<open>.then\<close> of the
  caller that received it), and a reaction leaves \<open>reactions\<close> when its job runs: for every
  promise, the reactions still waiting plus the jobs already run are at most one. The
  original \<^verbatim>\<open>push\<close> of a patched data layer is only called by the job of a settled promise.
  \<open>quiet w w'\<close> relates a state to a later one when nothing in between registered a
  reaction, ran a job or called an original \<^verbatim>\<open>push\<close>.
\<close>

definition once :: "world \<Rightarrow> bool" where
  "once w =
     ((\<forall>p. count_list (map fst (reactions w)) p + count_list (trace w) (Ran p) \<le> 1) \<and>
      (\<forall>p. nextId w \<le> p \<longrightarrow> count_list (map fst (reactions w)) p = 0 \<and> count_list (trace w) (Ran p) = 0))"

definition pushInv :: "world \<Rightarrow> bool" where
  "pushInv w =
     ((\<forall>p args. OrigPush p args \<in> set (trace w) \<longrightarrow> Ran p \<in> set (trace w)) \<and>
      (\<forall>p. Ran p \<in> set (trace w) \<longrightarrow> settled w p \<noteq> Pending))"

definition sound :: "world \<Rightarrow> bool" where
  "sound w = (once w \<and> pushInv w)"

definition quiet :: "world \<Rightarrow> world \<Rightarrow> bool" where
  "quiet w w' =
     (reactions w' = reactions w \<and> nextId w \<le> nextId w' \<and>
      (\<forall>p. count_list (trace w') (Ran p) = count_list (trace w) (Ran p)) \<and>
      (\<forall>p args. OrigPush p args \<in> set (trace w') \<longleftrightarrow> OrigPush p args \<in> set (trace w)) \<and>
      (\<forall>p. settled w p \<noteq> Pending \<longrightarrow> settled w' p \<noteq> Pending))"

fun plain :: "event \<Rightarrow> bool" where
  "plain (OrigPush p args) = False"
| "plain (Ran p) = False"
| "plain e = True"

text \<open>An original \<^verbatim>\<open>push\<close> used in examples: it returns the new length 1.\<close>

definition push0 :: userfn where
  "push0 args = (0, Return (JNum 1))"

subsection \<open>Who can touch a promise\<close>

text \<open>
  Every closure handed to the host resolves one promise (\<open>cb_target\<close>); a reaction of an async
  function settles the promise that function returned and logs its calls under that
  promise's number (\<open>cont_target\<close>). \<open>about t\<close> selects the trace events logged under \<open>t\<close>.
  \<open>own t w\<close>: the promise \<open>t\<close> exists and neither the registry nor a queued closure refers to it,
  so only the reactions \<open>mine t w\<close> can still settle it or log under it. \<open>same t w w'\<close>: from
  \<open>w\<close> to \<open>w'\<close> nothing happened to \<open>t\<close>. \<open>wf w\<close>: every number in use was drawn from \<open>nextId\<close>.
\<close>

fun cb_target :: "cb \<Rightarrow> nat" where
  "cb_target (Resolve p v) = p"
| "cb_target (PaintFrame p) = p"
| "cb_target (YieldFrame p) = p"
| "cb_target (YieldTimeout p) = p"
| "cb_target (RunFn fn args p) = p"
| "cb_target (AppendLink l p) = p"

fun cont_target :: "cont \<Rightarrow> nat option" where
  "cont_target (IterK out fn limit item rest) = Some out"
| "cont_target (PaintK fn out) = Some out"
| "cont_target (PushK f args) = None"
| "cont_target (UserK tag) = None"

fun about :: "nat \<Rightarrow> event \<Rightarrow> bool" where
  "about t (Called t' args) = (t' = t)"
| "about t (Yielded t') = (t' = t)"
| "about t e = False"

definition own :: "nat \<Rightarrow> world \<Rightarrow> bool" where
  "own t w =
     (t < nextId w \<and> t \<notin> set (pendingResolvers w) \<and>
      list_all (\<lambda>h. cb_target (snd (snd h)) \<noteq> t) (hostq w))"

definition mine :: "nat \<Rightarrow> world \<Rightarrow> (nat \<times> cont) list" where
  "mine t w = filter (\<lambda>(p, k). cont_target k = Some t) (reactions w)"

definition same :: "nat \<Rightarrow> world \<Rightarrow> world \<Rightarrow> bool" where
  "same t w w' =
     (own t w' \<and> settled w' t = settled w t \<and>
      filter (about t) (trace w') = filter (about t) (trace w) \<and>
      mine t w' = mine t w)"

definition wf :: "world \<Rightarrow> bool" where
  "wf w =
     ((\<forall>p \<in> set (pendingResolvers w). p < nextId w) \<and>
      (\<forall>h \<in> set (hostq w). fst h < nextId w \<and> cb_target (snd (snd h)) < nextId w) \<and>
      (\<forall>r \<in> set (reactions w). fst r < nextId w \<and> (\<forall>t. cont_target (snd r) = Some t \<longrightarrow> t < nextId w)) \<and>
      (\<forall>e \<in> set (trace w). \<forall>t. about t e \<longrightarrow> t < nextId w) \<and>
      (\<forall>p. nextId w \<le> p \<longrightarrow> settled w p = Pending))"

subsection \<open>A burst of calls to a debounced wrapper\<close>


definition echo :: userfn where
  "echo args = (1, Return (case args of [] \<Rightarrow> JStr ''done'' | x # xs \<Rightarrow> x))"



subsection \<open>What a chunked iteration is expected to do\<close>

text \<open>
  \<open>isCall out\<close> selects the calls of \<^verbatim>\<open>fn\<close> made by the iteration whose promise is \<open>out\<close>.
  \<open>returns fn x\<close>: \<^verbatim>\<open>fn(x)\<close> does not throw. \<open>processed fn items\<close> are the items up to and
  including the first one on which \<^verbatim>\<open>fn\<close> throws (all of them when none does), and
  \<open>outcome fn items\<close> is how the promise settles then. \<open>expect0 out xs\<close> is the trace of an
  iteration that yields before each item of \<open>xs\<close>. \<open>failing\<close> is an example callback that
  throws on the item 2.
\<close>

fun isCall :: "nat \<Rightarrow> event \<Rightarrow> bool" where
  "isCall t (Called t' args) = (t' = t)"
| "isCall t e = False"

definition returns :: "userfn \<Rightarrow> jsval \<Rightarrow> bool" where
  "returns fn x = (case snd (fn [x]) of Return r \<Rightarrow> True | Throw e \<Rightarrow> False)"

fun processed :: "userfn \<Rightarrow> jsval list \<Rightarrow> jsval list" where
  "processed fn [] = []"
| "processed fn (x # xs) =
     (case snd (fn [x]) of Return r \<Rightarrow> x # processed fn xs | Throw e \<Rightarrow> [x])"

fun outcome :: "userfn \<Rightarrow> jsval list \<Rightarrow> settle" where
  "outcome fn [] = Fulfilled Undefined"
| "outcome fn (x # xs) =
     (case snd (fn [x]) of Return r \<Rightarrow> outcome fn xs | Throw e \<Rightarrow> Rejected e)"

definition expect0 :: "nat \<Rightarrow> jsval list \<Rightarrow> event list" where
  "expect0 out xs = concat (map (\<lambda>x. [Yielded out, Called out [x]]) xs)"

definition failing :: userfn where
  "failing args = (1, if args = [JNum 2] then Throw (JStr ''boom'') else Return Undefined)"

text \<open>
  \<open>yieldp p w\<close>: \<open>p\<close> is a promise made by \<^verbatim>\<open>yieldUnlessUrgent\<close>: no reaction can reject it, and
  while it is pending its resolver is in the registry. \<open>iterInv out fn limit items w\<close>: the
  iteration that returned \<open>out\<close> is either suspended at an \<^verbatim>\<open>await\<close> before some item, having
  called \<^verbatim>\<open>fn\<close> on exactly the items before it, in order, or it is over, having called \<^verbatim>\<open>fn\<close>
  on \<open>processed fn items\<close> and settled \<open>out\<close> with \<open>outcome fn items\<close>.
\<close>

definition yieldp :: "nat \<Rightarrow> world \<Rightarrow> bool" where
  "yieldp p w =
     (p < nextId w \<and> mine p w = [] \<and> (\<forall>e. settled w p \<noteq> Rejected e) \<and>
      (settled w p = Pending \<longrightarrow> p \<in> set (pendingResolvers w)))"

definition iterInv :: "nat \<Rightarrow> userfn \<Rightarrow> jsnum \<Rightarrow> jsval list \<Rightarrow> world \<Rightarrow> bool" where
  "iterInv out fn limit items w =
     (own out w \<and>
      ((\<exists>p item rest seen.
          mine out w = [(p, IterK out fn limit item rest)] \<and> items = seen @ item # rest \<and>
          (\<forall>x \<in> set seen. returns fn x) \<and>
          filter (isCall out) (trace w) = map (\<lambda>x. Called out [x]) seen \<and>
          settled w out = Pending \<and> yieldp p w \<and> limit \<noteq> PosInfinity \<and>
          (limit = Num 0 \<longrightarrow> filter (about out) (trace w) = expect0 out seen @ [Yielded out]))
       \<or>
       (mine out w = [] \<and>
        filter (isCall out) (trace w) = map (\<lambda>x. Called out [x]) (processed fn items) \<and>
        settled w out = outcome fn items \<and>
        (limit = Num 0 \<longrightarrow> filter (about out) (trace w) = expect0 out (processed fn items)) \<and>
        (limit = PosInfinity \<longrightarrow>
           filter (about out) (trace w) = map (\<lambda>x. Called out [x]) (processed fn items)))))"

section \<open>Closed forms and evaluation rules\<close>

lemmas prims = newPromise_def resolvePromise_def rejectPromise_def thenK_def addHost_def
  requestAnimationFrame_def setTimeout_def requestIdleCallback_def cancelAnimationFrame_def
  addEventListener_def removeEventListener_def callFn_def setAdd_def

lemma fold_resolvePromise:
  "fold (\<lambda>p. resolvePromise p v) ps w =
     w\<lparr>settled := (\<lambda>q. if q \<in> set ps \<and> settled w q = Pending then Fulfilled v else settled w q)\<rparr>"
proof (induction ps arbitrary: w)
  case Nil
  show ?case by simp
next
  case (Cons a ps)
  have "fold (\<lambda>p. resolvePromise p v) (a # ps) w = fold (\<lambda>p. resolvePromise p v) ps (resolvePromise a v w)"
    by simp
  also have "\<dots> = (resolvePromise a v w)\<lparr>settled := (\<lambda>q. if q \<in> set ps \<and> settled (resolvePromise a v w) q = Pending then Fulfilled v else settled (resolvePromise a v w) q)\<rparr>"
    by (rule Cons.IH)
  also have "\<dots> = w\<lparr>settled := (\<lambda>q. if q \<in> set (a # ps) \<and> settled w q = Pending then Fulfilled v else settled w q)\<rparr>"
    by (auto simp add: resolvePromise_def fun_eq_iff cong: if_cong)
  finally show ?case .
qed

lemma resolvePendingPromises_eq:
  "resolvePendingPromises w =
     w\<lparr>settled := (\<lambda>q. if q \<in> set (pendingResolvers w) \<and> settled w q = Pending
                         then Fulfilled Undefined else settled w q),
       pendingResolvers := []\<rparr>"
  by (simp add: resolvePendingPromises_def fold_resolvePromise cong: if_cong)

lemma cleanup_eq:
  "cleanup c w =
     w\<lparr>listeners := removeAll (PageHide, c) (removeAll (VisibilityChange, c) (listeners w)),
       settled := (\<lambda>q. if q \<in> set (pendingResolvers w) \<and> settled w q = Pending
                         then Fulfilled Undefined else settled w q),
       pendingResolvers := []\<rparr>"
  by (simp add: cleanup_def resolvePendingPromises_eq removeEventListener_def cong: if_cong)

lemmas evals = exec_def init_def splitLongTask_def yieldUnlessUrgent_def prims Let_def
  fire_def job_def frame_def dispatch_def deliver_def cleanup_eq resolvePendingPromises_eq

section \<open>The registry is watched in every reachable state\<close>

lemma not_PageHide: "e \<noteq> PageHide \<Longrightarrow> e \<noteq> VisibilityChange \<Longrightarrow> False"
  by (cases e) auto

lemma guarded_cong:
  "listeners w' = listeners w \<Longrightarrow> pendingResolvers w' = pendingResolvers w \<Longrightarrow> guarded w' = guarded w"
  by (simp add: guarded_def)

lemma guarded_yield: "guarded w \<Longrightarrow> guarded (snd (yieldUnlessUrgent w))"
  by (auto simp: guarded_def yieldUnlessUrgent_def prims resolvePendingPromises_eq Let_def list_all_iff)

lemma guarded_cleanup: "guarded w \<Longrightarrow> guarded (cleanup c w)"
  by (auto simp: guarded_def cleanup_eq list_all_iff dest: not_PageHide)

lemma guarded_runCb: "guarded w \<Longrightarrow> guarded (runCb c w)"
  by (cases c) (auto simp: guarded_def prims list_all_iff split: completion.splits)


lemma fold_preserves:
  assumes "\<And>x w. P w \<Longrightarrow> P (f x w)" and "P w"
  shows "P (fold f xs w)"
  using assms(2) by (induction xs arbitrary: w) (auto intro: assms(1))

lemma guarded_iterLoop: "guarded w \<Longrightarrow> guarded (iterLoop out fn limit deadline items w)"
proof (induction items arbitrary: w)
  case Nil
  then show ?case by (simp add: guarded_def prims)
next
  case (Cons item rest)
  show ?case
  proof (cases "num_ge (now w) deadline")
    case True
    have "guarded (snd (yieldUnlessUrgent w))" using Cons.prems by (rule guarded_yield)
    then show ?thesis using True
      by (simp add: splitLongTask_def split_beta thenK_def guarded_def)
  next
    case False
    have g: "guarded (snd (callFn out fn [item] w))" using Cons.prems
      by (simp add: callFn_def guarded_def)
    show ?thesis
    proof (cases "snd (fn [item])")
      case (Return r)
      then show ?thesis using False Cons.IH[OF g] by (simp add: callFn_def)
    next
      case (Throw e)
      then show ?thesis using False g by (simp add: callFn_def rejectPromise_def guarded_def)
    qed
  qed
qed


lemma guarded_iterResume: "guarded w \<Longrightarrow> guarded (iterResume out fn limit item rest w)"
proof -
  assume g: "guarded w"
  have g1: "guarded (snd (callFn out fn [item] w))" using g
    by (simp add: callFn_def guarded_def)
  show ?thesis
  proof (cases "snd (fn [item])")
    case (Return r)
    then show ?thesis using guarded_iterLoop[OF g1] by (simp add: iterResume_def callFn_def)
  next
    case (Throw e)
    then show ?thesis using g1 by (simp add: iterResume_def callFn_def rejectPromise_def guarded_def)
  qed
qed

lemma guarded_splitLongIteration: "guarded w \<Longrightarrow> guarded (snd (splitLongIteration items fn limit w))"
proof -
  assume g: "guarded w"
  have "guarded (snd (newPromise w))" using g by (simp add: newPromise_def guarded_def)
  then show ?thesis
    by (simp add: splitLongIteration_def split_beta guarded_iterLoop)
qed

lemma guarded_invokePush: "guarded w \<Longrightarrow> guarded (snd (invokePush via f args w))"
proof (cases f)
  case (Orig fn)
  assume "guarded w"
  then show ?thesis using Orig by (simp add: guarded_def)
next
  case (Patched g)
  assume "guarded w"
  then have "guarded (snd (yieldUnlessUrgent w))" by (rule guarded_yield)
  then show ?thesis using Patched by (simp add: splitLongTask_def split_beta thenK_def guarded_def)
qed

lemma guarded_afterNextPaint: "guarded w \<Longrightarrow> guarded (snd (afterNextPaint fn w))"
  by (simp add: afterNextPaint_def prims guarded_def)

lemma guarded_prefetchResources: "guarded w \<Longrightarrow> guarded (snd (prefetchResources urls w))"
  by (simp add: prefetchResources_def prims guarded_def split: option.splits)

lemma guarded_runCont: "guarded w \<Longrightarrow> guarded (runCont p k s w)"
proof (cases k)
  case (IterK out fn limit item rest)
  assume "guarded w"
  then show ?thesis using IterK
    by (cases s) (simp_all add: guarded_iterResume, simp add: rejectPromise_def guarded_def)
next
  case (PushK f args)
  assume g: "guarded w"
  have "guarded (snd (invokePush p f args w))" using g by (rule guarded_invokePush)
  then show ?thesis using PushK g
    by (cases s; cases "fst (invokePush p f args w)") (simp_all add: split_beta guarded_def)
next
  case (PaintK fn out)
  assume "guarded w"
  then show ?thesis using PaintK
    by (cases s; cases "snd (fn [])") (simp_all add: prims guarded_def)
next
  case (UserK tag)
  assume "guarded w"
  then show ?thesis using UserK by simp
qed

lemma guarded_job: "guarded w \<Longrightarrow> guarded (job p w)"
proof -
  assume g: "guarded w"
  show ?thesis
  proof (cases "takeReaction p (reactions w)")
    case None
    then show ?thesis using g by (simp add: job_def)
  next
    case (Some a)
    obtain k rs where a: "a = (k, rs)" by (cases a)
    have "guarded (w\<lparr>reactions := rs, trace := trace w @ [Ran p]\<rparr>)"
      using g by (simp add: guarded_def)
    then have "guarded (runCont p k (settled w p) (w\<lparr>reactions := rs, trace := trace w @ [Ran p]\<rparr>))"
      by (rule guarded_runCont)
    then show ?thesis using g Some a by (simp add: job_def)
  qed
qed

lemma guarded_fire: "guarded w \<Longrightarrow> guarded (fire i w)"
proof -
  assume g: "guarded w"
  show ?thesis
  proof (cases "takeHost i (hostq w)")
    case None
    then show ?thesis using g by (simp add: fire_def)
  next
    case (Some a)
    obtain c hs where a: "a = (c, hs)" by (cases a)
    have "guarded (w\<lparr>hostq := hs\<rparr>)" using g by (simp add: guarded_def)
    then have "guarded (runCb c (w\<lparr>hostq := hs\<rparr>))" by (rule guarded_runCb)
    then show ?thesis using Some a by (simp add: fire_def)
  qed
qed

lemma guarded_frame: "guarded w \<Longrightarrow> guarded (frame w)"
proof -
  assume g: "guarded w"
  have "guarded (w\<lparr>hostq := filter (\<lambda>(i, src, c). src \<noteq> Raf) (hostq w)\<rparr>)"
    using g by (simp add: guarded_def)
  then show ?thesis unfolding frame_def
    by (rule fold_preserves[rotated]) (auto intro: guarded_runCb)
qed

lemma guarded_deliver: "guarded w \<Longrightarrow> guarded (deliver ev w)"
  unfolding deliver_def
  by (rule fold_preserves[rotated]) (auto intro: guarded_cleanup)

lemma guarded_dispatch: "guarded w \<Longrightarrow> guarded (dispatch ev w)"
  by (simp add: dispatch_def guarded_deliver)

lemma guarded_step: "guarded w \<Longrightarrow> guarded (step a w)"
proof (cases a)
  case (CallYield tag)
  assume "guarded w"
  then have "guarded (snd (yieldUnlessUrgent w))" by (rule guarded_yield)
  then show ?thesis using CallYield by (simp add: splitLongTask_def split_beta thenK_def guarded_def)
next
  case (CallPush f args)
  assume "guarded w"
  then show ?thesis using CallPush by (simp add: guarded_invokePush)
next
  case (CallPerform fn)
  assume "guarded w"
  then show ?thesis using CallPerform by (simp add: performAsyncUiUpdate_def guarded_afterNextPaint)
qed (simp_all add: guarded_frame guarded_fire guarded_job guarded_dispatch
      guarded_splitLongIteration guarded_prefetchResources, simp_all add: guarded_def)

lemma guarded_init: "guarded (init vis sy gu t)"
  by (simp add: guarded_def init_def)

lemma guarded_exec: "guarded w \<Longrightarrow> guarded (exec acts w)"
  unfolding exec_def by (rule fold_preserves[rotated]) (auto intro: guarded_step)


lemma sweep_keeps_empty:
  "pendingResolvers w = [] \<Longrightarrow>
   pendingResolvers (fold (\<lambda>(e, c) w'. if (e, c) \<in> set (listeners w') then cleanup c w' else w') xs w) = []"
proof (induction xs arbitrary: w)
  case Nil
  then show ?case by simp
next
  case (Cons x xs)
  obtain e c where x: "x = (e, c)" by (cases x)
  have "pendingResolvers (if (e, c) \<in> set (listeners w) then cleanup c w else w) = []"
    using Cons.prems by (simp add: cleanup_eq)
  then show ?case unfolding x by (simp add: Cons.IH)
qed


lemma sweep_keeps_settled:
  "settled w p \<noteq> Pending \<Longrightarrow>
   settled (fold (\<lambda>(e, c) w'. if (e, c) \<in> set (listeners w') then cleanup c w' else w') xs w) p \<noteq> Pending"
proof (induction xs arbitrary: w)
  case Nil
  then show ?case by simp
next
  case (Cons x xs)
  obtain e c where x: "x = (e, c)" by (cases x)
  have "settled (if (e, c) \<in> set (listeners w) then cleanup c w else w) p \<noteq> Pending"
    using Cons.prems by (simp add: cleanup_eq)
  then show ?case unfolding x by (simp add: Cons.IH)
qed

lemma deliver_sweeps:
  assumes g: "guarded w"
  shows "pendingResolvers (deliver ev w) = [] \<and>
         (\<forall>p \<in> set (pendingResolvers w). settled (deliver ev w) p \<noteq> Pending)"
proof (cases "pendingResolvers w = []")
  case True
  then show ?thesis by (simp add: deliver_def sweep_keeps_empty)
next
  case False
  then have ne: "listeners w \<noteq> []" using g by (simp add: guarded_def)
  then obtain e c where ec: "(e, c) \<in> set (listeners w)" by (cases "listeners w") auto
  have "(ev, c) \<in> set (listeners w)"
  proof (cases ev)
    case VisibilityChange
    then show ?thesis using g ec unfolding guarded_def list_all_iff by blast
  next
    case PageHide
    then show ?thesis using g ec unfolding guarded_def list_all_iff by blast
  qed
  then have "(ev, c) \<in> set (filter (\<lambda>(e, c). e = ev) (listeners w))"
    by simp
  then obtain x xs where xs: "filter (\<lambda>(e, c). e = ev) (listeners w) = x # xs"
    by (cases "filter (\<lambda>(e, c). e = ev) (listeners w)") auto
  obtain e0 c0 where x: "x = (e0, c0)" by (cases x)
  have "(e0, c0) \<in> set (filter (\<lambda>(e, c). e = ev) (listeners w))" unfolding xs x by simp
  then have mem: "(e0, c0) \<in> set (listeners w)" by auto
  let ?g = "\<lambda>(e, c) w'. if (e, c) \<in> set (listeners w') then cleanup c w' else w'"
  let ?w1 = "cleanup c0 w"
  have "deliver ev w = fold ?g (x # xs) w"
    unfolding deliver_def xs ..
  also have "\<dots> = fold ?g xs (?g (e0, c0) w)" unfolding x by simp
  also have "?g (e0, c0) w = ?w1" using mem by simp
  finally have d: "deliver ev w = fold ?g xs ?w1" .
  have e1: "pendingResolvers ?w1 = []" by (simp add: cleanup_eq)
  have s1: "\<And>p. p \<in> set (pendingResolvers w) \<Longrightarrow> settled ?w1 p \<noteq> Pending"
    by (simp add: cleanup_eq)
  have "pendingResolvers (deliver ev w) = []"
    unfolding d using e1 by (rule sweep_keeps_empty)
  moreover have "\<And>p. p \<in> set (pendingResolvers w) \<Longrightarrow> settled (deliver ev w) p \<noteq> Pending"
    unfolding d by (rule sweep_keeps_settled) (rule s1)
  ultimately show ?thesis by blast
qed

lemma dispatch_VisibilityChange: "dispatch VisibilityChange w = deliver VisibilityChange w"
  by (simp add: dispatch_def)

lemma dispatch_PageHide: "dispatch PageHide w = w"
  by (simp add: dispatch_def)

lemma dispatch_sweeps:
  assumes g: "guarded w"
  shows "pendingResolvers (dispatch VisibilityChange w) = [] \<and>
         (\<forall>p \<in> set (pendingResolvers w). settled (dispatch VisibilityChange w) p \<noteq> Pending)"
  unfolding dispatch_VisibilityChange using g by (rule deliver_sweeps)


section \<open>Forced resumption\<close>

text \<open>
  Whatever the page and the host did so far (any list of actions from a fresh page), when the
  browser fires \<^verbatim>\<open>visibilitychange\<close>, that one dispatch (a single task of the host, no promise
  job runs inside it) settles every promise whose resolver was in \<^verbatim>\<open>pendingResolvers\<close>, and
  leaves \<^verbatim>\<open>pendingResolvers\<close> empty.
\<close>

lemma visibilitychange_empties_registry:
  "pendingResolvers (dispatch VisibilityChange (exec acts (init vis sy gu t))) = [] \<and>
   (\<forall>p \<in> set (pendingResolvers (exec acts (init vis sy gu t))).
      settled (dispatch VisibilityChange (exec acts (init vis sy gu t))) p \<noteq> Pending)"
  by (rule dispatch_sweeps) (rule guarded_exec, rule guarded_init)

text \<open>
  Claim C2. The same is claimed of a page-hide event, and \<^verbatim>\<open>yieldUnlessUrgent\<close> registers
  \<^verbatim>\<open>cleanup\<close> for \<^verbatim>\<open>pagehide\<close> too, but at \<^verbatim>\<open>document\<close>, where that event is never heard. Two
  yields pending on a visible page without \<^verbatim>\<open>scheduler.yield\<close> (promises 0 and 2, both with
  their \<^verbatim>\<open>pagehide\<close> listener registered): when the browser fires \<^verbatim>\<open>pagehide\<close>, no listener
  runs, both promises stay pending and both resolvers stay in \<^verbatim>\<open>pendingResolvers\<close>; a
  \<^verbatim>\<open>visibilitychange\<close> in the same state resolves both and empties the registry.
\<close>

theorem pagehide_listener_never_runs:
  "pendingResolvers (exec [CallYield 7, CallYield 8] (init True False None 0)) = [0, 2] \<and>
   listeners (exec [CallYield 7, CallYield 8] (init True False None 0)) =
     [(VisibilityChange, 0), (PageHide, 0), (VisibilityChange, 2), (PageHide, 2)] \<and>
   pendingResolvers (exec [CallYield 7, CallYield 8, Dispatch PageHide] (init True False None 0)) = [0, 2] \<and>
   settled (exec [CallYield 7, CallYield 8, Dispatch PageHide] (init True False None 0)) 0 = Pending \<and>
   settled (exec [CallYield 7, CallYield 8, Dispatch PageHide] (init True False None 0)) 2 = Pending \<and>
   pendingResolvers (exec [CallYield 7, CallYield 8, Dispatch VisibilityChange] (init True False None 0)) = [] \<and>
   settled (exec [CallYield 7, CallYield 8, Dispatch VisibilityChange] (init True False None 0)) 0
     = Fulfilled Undefined \<and>
   settled (exec [CallYield 7, CallYield 8, Dispatch VisibilityChange] (init True False None 0)) 2
     = Fulfilled Undefined"
  by (simp add: evals)

section \<open>Normal resumption and the registry\<close>

text \<open>
  Claim C3. On a visible page with \<^verbatim>\<open>scheduler.yield\<close>, one call of \<^verbatim>\<open>yieldUnlessUrgent\<close>
  (promise 0) followed by the host resolving the native yield (queue entry 1) settles the
  promise, and its resolver is still in \<^verbatim>\<open>pendingResolvers\<close>: the native path calls
  \<^verbatim>\<open>resolve\<close> without \<^verbatim>\<open>pendingResolvers.delete(resolve)\<close>.
\<close>

theorem native_yield_leaves_resolver_registered:
  "settled (exec [CallYield 7, Fire 1] (init True True None 0)) 0 = Fulfilled Undefined \<and>
   pendingResolvers (exec [CallYield 7, Fire 1] (init True True None 0)) = [0]"
  by (simp add: evals)

text \<open>The fallback path (frame, then timer) does remove it.\<close>

lemma fallback_yield_removes_resolver:
  "settled (exec [CallYield 7, Frame, Fire 2] (init True False None 0)) 0 = Fulfilled Undefined \<and>
   pendingResolvers (exec [CallYield 7, Frame, Fire 2] (init True False None 0)) = []"
  by (simp add: evals)

section \<open>Every continuation runs at most once\<close>

lemma quiet_refl: "quiet w w"
  by (simp add: quiet_def)

lemma quiet_trans: "quiet w w1 \<Longrightarrow> quiet w1 w2 \<Longrightarrow> quiet w w2"
  by (auto simp: quiet_def)

lemma Ran_mem_count: "Ran p \<in> set es \<longleftrightarrow> count_list es (Ran p) \<noteq> 0"
  by (simp add: count_list_0_iff)

lemma sound_quiet:
  assumes "sound w" and "quiet w w'"
  shows "sound w'"
  using assms unfolding sound_def once_def pushInv_def quiet_def Ran_mem_count
  by (metis le_trans)

lemma sound_then:
  assumes s: "sound w" and q: "quiet w w1" and lo: "nextId w \<le> p" and hi: "p < nextId w1"
  shows "sound (thenK p k w1)"
proof -
  have s1: "sound w1" using s q by (rule sound_quiet)
  have z: "count_list (map fst (reactions w1)) p = 0 \<and> count_list (trace w1) (Ran p) = 0"
    using s q lo unfolding sound_def once_def quiet_def by simp
  have "once (thenK p k w1)"
    unfolding once_def
  proof (intro conjI allI impI)
    fix q
    show "count_list (map fst (reactions (thenK p k w1))) q + count_list (trace (thenK p k w1)) (Ran q) \<le> 1"
      using s1 z unfolding sound_def once_def by (cases "q = p") (auto simp: thenK_def)
  next
    fix q assume "nextId (thenK p k w1) \<le> q"
    then have "nextId w1 \<le> q" "q \<noteq> p" using hi by (auto simp: thenK_def)
    then show "count_list (map fst (reactions (thenK p k w1))) q = 0"
      using s1 unfolding sound_def once_def by (auto simp: thenK_def)
  next
    fix q assume "nextId (thenK p k w1) \<le> q"
    then have "nextId w1 \<le> q" by (auto simp: thenK_def)
    then show "count_list (trace (thenK p k w1)) (Ran q) = 0"
      using s1 unfolding sound_def once_def by (auto simp: thenK_def)
  qed
  moreover have "pushInv (thenK p k w1)"
    using s1 unfolding sound_def pushInv_def by (simp add: thenK_def)
  ultimately show ?thesis by (simp add: sound_def)
qed

lemma quiet_yield: "quiet w (snd (yieldUnlessUrgent w))"
  by (simp add: quiet_def yieldUnlessUrgent_def prims resolvePendingPromises_eq Let_def)

lemma fst_yield: "fst (yieldUnlessUrgent w) = nextId w"
  by (simp add: yieldUnlessUrgent_def prims Let_def)

lemma nextId_yield: "nextId w < nextId (snd (yieldUnlessUrgent w))"
  by (simp add: yieldUnlessUrgent_def prims resolvePendingPromises_eq Let_def)

lemma quiet_callFn: "quiet w (snd (callFn tag fn args w))"
  by (simp add: quiet_def callFn_def)

lemma quiet_resolve: "quiet w (resolvePromise p v w)"
  by (simp add: quiet_def resolvePromise_def)

lemma quiet_reject: "quiet w (rejectPromise p v w)"
  by (simp add: quiet_def rejectPromise_def)

lemma quiet_cleanup: "quiet w (cleanup c w)"
  by (simp add: quiet_def cleanup_eq)

lemma quiet_runCb: "quiet w (runCb c w)"
  by (cases c) (auto simp: quiet_def prims split: completion.splits)


lemma quiet_log: "plain e \<Longrightarrow> quiet w (w\<lparr>trace := trace w @ [e]\<rparr>)"
  by (cases e) (auto simp: quiet_def)

lemma sound_suspend:
  assumes s: "sound w" and e: "plain e"
  shows "sound (thenK (fst (yieldUnlessUrgent w)) k ((snd (yieldUnlessUrgent w))\<lparr>trace := trace (snd (yieldUnlessUrgent w)) @ [e]\<rparr>))"
proof -
  let ?w1 = "snd (yieldUnlessUrgent w)"
  let ?w2 = "?w1\<lparr>trace := trace ?w1 @ [e]\<rparr>"
  have "quiet ?w1 ?w2" using e by (rule quiet_log)
  with quiet_yield have q: "quiet w ?w2" by (rule quiet_trans)
  have hi: "nextId w < nextId ?w2" using nextId_yield[of w] by simp
  show ?thesis unfolding fst_yield using s q _ hi by (rule sound_then) simp
qed

lemma sound_await:
  assumes s: "sound w"
  shows "sound (thenK (fst (yieldUnlessUrgent w)) k (snd (yieldUnlessUrgent w)))"
  unfolding fst_yield using s quiet_yield _ nextId_yield by (rule sound_then) simp

lemma sound_iterLoop: "sound w \<Longrightarrow> sound (iterLoop out fn limit deadline items w)"
proof (induction items arbitrary: w)
  case Nil
  then show ?case using quiet_resolve by (auto intro: sound_quiet)
next
  case (Cons item rest)
  show ?case
  proof (cases "num_ge (now w) deadline")
    case True
    then show ?thesis using sound_suspend[OF Cons.prems, of "Yielded out"]
      by (simp add: splitLongTask_def split_beta)
  next
    case False
    have g: "sound (snd (callFn out fn [item] w))"
      using Cons.prems quiet_callFn by (rule sound_quiet)
    show ?thesis
    proof (cases "snd (fn [item])")
      case (Return r)
      then show ?thesis using False Cons.IH[OF g] by (simp add: callFn_def)
    next
      case (Throw e)
      have "sound (rejectPromise out e (snd (callFn out fn [item] w)))"
        using g quiet_reject by (rule sound_quiet)
      then show ?thesis using False Throw by (simp add: callFn_def)
    qed
  qed
qed

lemma sound_iterResume: "sound w \<Longrightarrow> sound (iterResume out fn limit item rest w)"
proof -
  assume s: "sound w"
  have g: "sound (snd (callFn out fn [item] w))"
    using s quiet_callFn by (rule sound_quiet)
  show ?thesis
  proof (cases "snd (fn [item])")
    case (Return r)
    then show ?thesis using sound_iterLoop[OF g] by (simp add: iterResume_def callFn_def)
  next
    case (Throw e)
    have "sound (rejectPromise out e (snd (callFn out fn [item] w)))"
      using g quiet_reject by (rule sound_quiet)
    then show ?thesis using Throw by (simp add: iterResume_def callFn_def)
  qed
qed

lemma quiet_newPromise: "quiet w (snd (newPromise w))"
  by (simp add: quiet_def newPromise_def)

lemma sound_splitLongIteration: "sound w \<Longrightarrow> sound (snd (splitLongIteration items fn limit w))"
proof -
  assume s: "sound w"
  have "sound (snd (newPromise w))" using s quiet_newPromise by (rule sound_quiet)
  then show ?thesis
    by (simp add: splitLongIteration_def split_beta sound_iterLoop)
qed

lemma sound_invokePush:
  assumes s: "sound w" and v: "Ran via \<in> set (trace w) \<or> (\<exists>g. f = Patched g)"
  shows "sound (snd (invokePush via f args w))"
proof (cases f)
  case (Orig fn)
  then have r: "Ran via \<in> set (trace w)" using v by simp
  have "once (snd (invokePush via f args w))"
    using s Orig by (simp add: sound_def once_def)
  moreover have "pushInv (snd (invokePush via f args w))"
    using s Orig r by (auto simp: sound_def pushInv_def)
  ultimately show ?thesis by (simp add: sound_def)
next
  case (Patched g)
  then show ?thesis using sound_await[OF s] by (simp add: splitLongTask_def split_beta)
qed

lemma sound_afterNextPaint: "sound w \<Longrightarrow> sound (snd (afterNextPaint fn w))"
proof -
  assume s: "sound w"
  let ?w3 = "snd (requestAnimationFrame (PaintFrame (Suc (nextId w)))
               (snd (setTimeout (Resolve (Suc (nextId w)) Undefined) 100 (snd (newPromise (snd (newPromise w)))))))"
  have q: "quiet w ?w3" by (simp add: quiet_def prims)
  have "sound (thenK (Suc (nextId w)) (PaintK fn (nextId w)) ?w3)"
    using s q by (rule sound_then) (simp_all add: prims)
  then show ?thesis by (simp add: afterNextPaint_def prims)
qed

lemma quiet_prefetchResources: "quiet w (snd (prefetchResources urls w))"
  by (simp add: quiet_def prefetchResources_def prims split: option.splits)


lemma sound_runCont:
  assumes s: "sound w" and r: "Ran p \<in> set (trace w)"
  shows "sound (runCont p k st w)"
proof (cases k)
  case (IterK out fn limit item rest)
  show ?thesis
  proof (cases st)
    case (Rejected e)
    then show ?thesis using IterK sound_quiet[OF s quiet_reject] by simp
  qed (simp_all add: IterK sound_iterResume[OF s])
next
  case (PushK f args)
  have i: "sound (snd (invokePush p f args w))" using s r by (simp add: sound_invokePush)
  have u: "\<And>e. sound ((snd (invokePush p f args w))\<lparr>trace := trace (snd (invokePush p f args w)) @ [Uncaught e]\<rparr>)"
    using i by (rule sound_quiet) (simp add: quiet_log)
  show ?thesis
    using PushK s i u by (cases st; cases "fst (invokePush p f args w)") (simp_all add: split_beta)
next
  case (PaintK fn out)
  have c: "quiet w (snd (callFn out fn [] w))" by (rule quiet_callFn)
  have "\<And>v. quiet w (resolvePromise out v (snd (callFn out fn [] w)))"
    using c quiet_resolve by (rule quiet_trans)
  moreover have "\<And>v. quiet w (rejectPromise out v (snd (callFn out fn [] w)))"
    using c quiet_reject by (rule quiet_trans)
  moreover have "\<And>v. quiet w (rejectPromise out v w)" by (rule quiet_reject)
  ultimately show ?thesis using PaintK
    by (cases st; cases "fst (callFn out fn [] w)") (auto simp: split_beta intro: sound_quiet[OF s])
next
  case (UserK tag)
  then show ?thesis using s by simp
qed

lemma takeReaction_count:
  "takeReaction p rs = Some (k, rs') \<Longrightarrow>
   count_list (map fst rs) q = count_list (map fst rs') q + (if q = p then 1 else 0)"
proof (induction rs arbitrary: rs')
  case Nil
  then show ?case by simp
next
  case (Cons r rs)
  obtain q' k' where r: "r = (q', k')" by (cases r)
  show ?case
  proof (cases "q' = p")
    case True
    then show ?thesis using Cons.prems r by auto
  next
    case False
    then obtain rs'' where t: "takeReaction p rs = Some (k, rs'')" and e: "rs' = (q', k') # rs''"
      using Cons.prems r by (auto split: option.splits)
    show ?thesis using Cons.IH[OF t] e r False by auto
  qed
qed

lemma sound_job: "sound w \<Longrightarrow> sound (job p w)"
proof -
  assume s: "sound w"
  show ?thesis
  proof (cases "settled w p = Pending \<or> takeReaction p (reactions w) = None")
    case True
    then show ?thesis using s by (auto simp: job_def)
  next
    case False
    then obtain k rs where t: "takeReaction p (reactions w) = Some (k, rs)" and st: "settled w p \<noteq> Pending"
      by auto
    let ?w1 = "w\<lparr>reactions := rs, trace := trace w @ [Ran p]\<rparr>"
    have c: "\<And>q. count_list (map fst (reactions w)) q = count_list (map fst rs) q + (if q = p then 1 else 0)"
      using t by (rule takeReaction_count)
    have o: "once w" using s by (simp add: sound_def)
    have "once ?w1"
      unfolding once_def
    proof (intro conjI allI impI)
      fix q
      have "count_list (map fst (reactions w)) q + count_list (trace w) (Ran q) \<le> 1"
        using o by (simp add: once_def)
      then show "count_list (map fst (reactions ?w1)) q + count_list (trace ?w1) (Ran q) \<le> 1"
        using c[of q] by (cases "q = p") auto
    next
      fix q assume "nextId ?w1 \<le> q"
      then have z: "count_list (map fst (reactions w)) q = 0" using o by (simp add: once_def)
      then show "count_list (map fst (reactions ?w1)) q = 0" using c[of q] by simp
    next
      fix q assume n: "nextId ?w1 \<le> q"
      then have z: "count_list (map fst (reactions w)) q = 0" "count_list (trace w) (Ran q) = 0"
        using o by (simp_all add: once_def)
      have "q \<noteq> p" using z(1) c[of q] by auto
      then show "count_list (trace ?w1) (Ran q) = 0" using z(2) by simp
    qed
    moreover have "pushInv ?w1" using s st unfolding sound_def pushInv_def by auto
    ultimately have "sound ?w1" by (simp add: sound_def)
    then have "sound (runCont p k (settled w p) ?w1)" by (rule sound_runCont) simp
    then show ?thesis using t st by (simp add: job_def)
  qed
qed

lemma sound_fire: "sound w \<Longrightarrow> sound (fire i w)"
proof -
  assume s: "sound w"
  show ?thesis
  proof (cases "takeHost i (hostq w)")
    case None
    then show ?thesis using s by (simp add: fire_def)
  next
    case (Some a)
    obtain c hs where a: "a = (c, hs)" by (cases a)
    have "quiet w (w\<lparr>hostq := hs\<rparr>)" by (simp add: quiet_def)
    then have "quiet w (runCb c (w\<lparr>hostq := hs\<rparr>))" using quiet_runCb by (rule quiet_trans)
    with s have "sound (runCb c (w\<lparr>hostq := hs\<rparr>))" by (rule sound_quiet)
    then show ?thesis using Some a by (simp add: fire_def)
  qed
qed

lemma sound_runCb: "sound w \<Longrightarrow> sound (runCb c w)"
  by (erule sound_quiet) (rule quiet_runCb)

lemma sound_frame: "sound w \<Longrightarrow> sound (frame w)"
proof -
  assume s: "sound w"
  have "quiet w (w\<lparr>hostq := filter (\<lambda>(i, src, c). src \<noteq> Raf) (hostq w)\<rparr>)"
    by (simp add: quiet_def)
  with s have "sound (w\<lparr>hostq := filter (\<lambda>(i, src, c). src \<noteq> Raf) (hostq w)\<rparr>)"
    by (rule sound_quiet)
  then show ?thesis unfolding frame_def
    by (rule fold_preserves[rotated]) (auto intro: sound_runCb)
qed

lemma sound_cleanup: "sound w \<Longrightarrow> sound (cleanup c w)"
  by (erule sound_quiet) (rule quiet_cleanup)

lemma sound_deliver: "sound w \<Longrightarrow> sound (deliver ev w)"
  unfolding deliver_def
  by (rule fold_preserves[rotated]) (auto intro: sound_cleanup)

lemma sound_dispatch: "sound w \<Longrightarrow> sound (dispatch ev w)"
  by (simp add: dispatch_def sound_deliver)

lemma sound_step: "sound w \<Longrightarrow> sound (step a w)"
proof (cases a)
  case (CallYield tag)
  assume "sound w"
  then show ?thesis using CallYield sound_await[of w "UserK tag"]
    by (simp add: splitLongTask_def split_beta)
next
  case (CallPush f args)
  assume "sound w"
  then have "sound (snd (invokePush 0 (Patched f) args w))" by (rule sound_invokePush) simp
  then show ?thesis using CallPush by (simp add: patchDatalayer_def del: invokePush.simps)
next
  case (CallPerform fn)
  assume "sound w"
  then show ?thesis using CallPerform by (simp add: performAsyncUiUpdate_def sound_afterNextPaint)
next
  case (SetVisible b)
  assume "sound w"
  then show ?thesis using SetVisible by (auto intro: sound_quiet simp: quiet_def)
next
  case (Advance n)
  assume "sound w"
  then show ?thesis using Advance by (auto intro: sound_quiet simp: quiet_def)
next
  case (CallPrefetch urls)
  assume "sound w"
  then show ?thesis using CallPrefetch quiet_prefetchResources by (auto intro: sound_quiet)
qed (simp_all add: sound_frame sound_fire sound_job sound_dispatch sound_splitLongIteration)

lemma sound_init: "sound (init vis sy gu t)"
  by (simp add: sound_def once_def pushInv_def init_def)

lemma sound_exec: "sound w \<Longrightarrow> sound (exec acts w)"
  unfolding exec_def by (rule fold_preserves[rotated]) (auto intro: sound_step)


lemma sweep_keeps_trace:
  "trace (fold (\<lambda>(e, c) w'. if (e, c) \<in> set (listeners w') then cleanup c w' else w') xs w) = trace w"
proof (induction xs arbitrary: w)
  case Nil
  show ?case by simp
next
  case (Cons x xs)
  obtain e c where x: "x = (e, c)" by (cases x)
  have "trace (if (e, c) \<in> set (listeners w) then cleanup c w else w) = trace w"
    by (simp add: cleanup_eq)
  then show ?case unfolding x by (simp add: Cons.IH)
qed

lemma sweep_keeps_value:
  "settled w p \<noteq> Pending \<Longrightarrow>
   settled (fold (\<lambda>(e, c) w'. if (e, c) \<in> set (listeners w') then cleanup c w' else w') xs w) p = settled w p"
proof (induction xs arbitrary: w)
  case Nil
  show ?case by simp
next
  case (Cons x xs)
  obtain e c where x: "x = (e, c)" by (cases x)
  let ?w1 = "if (e, c) \<in> set (listeners w) then cleanup c w else w"
  have v: "settled ?w1 p = settled w p" using Cons.prems by (simp add: cleanup_eq)
  then have "settled ?w1 p \<noteq> Pending" using Cons.prems by simp
  then have "settled (fold (\<lambda>(e, c) w'. if (e, c) \<in> set (listeners w') then cleanup c w' else w') xs ?w1) p = settled ?w1 p"
    by (rule Cons.IH)
  then show ?case unfolding x using v by simp
qed

text \<open>
  Claim C4. For every interleaving of calls and host events from a fresh page (natural
  resumption, forced sweeps, repeated sweeps, in any order), the continuation waiting on a
  promise runs at most once (\<open>Ran p\<close> occurs at most once in the trace). Resuming never
  throws: the three ways of resuming (the \<^verbatim>\<open>resolve\<close> function, the fallback timer callback,
  a dispatched lifecycle event) are total and add nothing to the trace, where an exception
  reaching the host would show as \<open>Uncaught\<close>. On a promise that is already settled they
  leave its value as it is; \<^verbatim>\<open>resolve\<close> alone changes nothing at all.
\<close>

theorem double_resume_is_noop:
  "count_list (trace (exec acts (init vis sy gu t))) (Ran p) \<le> 1 \<and>
   trace (runCb (Resolve q v) w) = trace w \<and>
   trace (runCb (YieldTimeout q) w) = trace w \<and>
   trace (dispatch ev w) = trace w \<and>
   (settled w q \<noteq> Pending \<longrightarrow>
      runCb (Resolve q v) w = w \<and>
      settled (runCb (YieldTimeout q) w) = settled w \<and>
      settled (dispatch ev w) q = settled w q)"
proof -
  have "sound (exec acts (init vis sy gu t))" using sound_init by (rule sound_exec)
  then have "count_list (trace (exec acts (init vis sy gu t))) (Ran p) \<le> 1"
    unfolding sound_def once_def by (meson add_leD2)
  moreover have "trace (runCb (Resolve q v) w) = trace w" by (simp add: resolvePromise_def)
  moreover have "trace (runCb (YieldTimeout q) w) = trace w" by (simp add: resolvePromise_def)
  moreover have "trace (dispatch ev w) = trace w"
    by (simp add: dispatch_def deliver_def sweep_keeps_trace)
  moreover have "settled w q \<noteq> Pending \<Longrightarrow> runCb (Resolve q v) w = w"
    by (simp add: resolvePromise_def)
  moreover have "settled w q \<noteq> Pending \<Longrightarrow> settled (runCb (YieldTimeout q) w) = settled w"
    by (simp add: resolvePromise_def)
  moreover have "settled w q \<noteq> Pending \<Longrightarrow> settled (dispatch ev w) q = settled w q"
  proof -
    assume "settled w q \<noteq> Pending"
    then have "settled (deliver ev w) q = settled w q"
      unfolding deliver_def by (rule sweep_keeps_value)
    then show ?thesis by (simp add: dispatch_def)
  qed
  ultimately show ?thesis by blast
qed

text \<open>
  A yield on a visible page, its frame, a forced sweep, the job; then the stale fallback
  timer fires, and the page is hidden once more: the continuation of promise 0 ran once.
\<close>

theorem double_resume_witness:
  "count_list (trace (exec [CallYield 7, Frame, Dispatch VisibilityChange, Job 0, Fire 2, Job 0, Dispatch VisibilityChange, Job 0]
       (init True False None 0))) (Ran 0) = 1 \<and>
   settled (exec [CallYield 7, Frame, Dispatch VisibilityChange, Job 0] (init True False None 0)) 0 = Fulfilled Undefined \<and>
   runCb (Resolve 0 Undefined) (exec [CallYield 7, Frame, Dispatch VisibilityChange, Job 0] (init True False None 0))
     = exec [CallYield 7, Frame, Dispatch VisibilityChange, Job 0] (init True False None 0) \<and>
   settled (dispatch VisibilityChange (exec [CallYield 7, Frame, Dispatch VisibilityChange, Job 0] (init True False None 0))) 0
     = Fulfilled Undefined"
proof -
  let ?w = "exec [CallYield 7, Frame, Dispatch VisibilityChange, Job 0] (init True False None 0)"
  have s: "settled ?w 0 = Fulfilled Undefined" by (simp add: evals)
  have c: "Ran 0 \<in> set (trace (exec [CallYield 7, Frame, Dispatch VisibilityChange, Job 0, Fire 2, Job 0, Dispatch VisibilityChange, Job 0]
       (init True False None 0)))" by (simp add: evals)
  have "count_list (trace (exec [CallYield 7, Frame, Dispatch VisibilityChange, Job 0, Fire 2, Job 0, Dispatch VisibilityChange, Job 0]
       (init True False None 0))) (Ran 0) \<noteq> 0" using c by (simp only: count_list_0_iff) simp
  then show ?thesis
    using s double_resume_is_noop[of "[CallYield 7, Frame, Dispatch VisibilityChange, Job 0, Fire 2, Job 0, Dispatch VisibilityChange, Job 0]"
        True False None 0 0 0 Undefined ?w VisibilityChange]
    by simp
qed

section \<open>The patched data layer\<close>

text \<open>
  Claim C10. After \<^verbatim>\<open>patchDatalayer(dl)\<close>, a call \<^verbatim>\<open>dl.push(...args)\<close> returns \<^verbatim>\<open>undefined\<close>
  and calls nothing synchronously (the trace is unchanged): it only registers the call of
  the original \<^verbatim>\<open>push\<close> as the reaction of a fresh yield promise. A reaction of a pending
  promise cannot run, and in every reachable state each call of an original \<^verbatim>\<open>push\<close> in
  the trace was made by the job of a promise that is settled.
\<close>

theorem patched_push_is_deferred:
  "fst (invokePush via (push (patchDatalayer dl)) args w) = Return Undefined \<and>
   trace (snd (invokePush via (push (patchDatalayer dl)) args w)) = trace w \<and>
   reactions (snd (invokePush via (push (patchDatalayer dl)) args w)) =
     reactions w @ [(fst (splitLongTask w), PushK (push dl) args)] \<and>
   (settled w p = Pending \<longrightarrow> job p w = w) \<and>
   (OrigPush p a \<in> set (trace (exec acts (init vis sy gu t))) \<longrightarrow>
      Ran p \<in> set (trace (exec acts (init vis sy gu t))) \<and>
      settled (exec acts (init vis sy gu t)) p \<noteq> Pending)"
proof -
  have "sound (exec acts (init vis sy gu t))" using sound_init by (rule sound_exec)
  then have "OrigPush p a \<in> set (trace (exec acts (init vis sy gu t))) \<Longrightarrow>
      Ran p \<in> set (trace (exec acts (init vis sy gu t))) \<and>
      settled (exec acts (init vis sy gu t)) p \<noteq> Pending"
    unfolding sound_def pushInv_def by blast
  moreover have "fst (invokePush via (push (patchDatalayer dl)) args w) = Return Undefined"
    by (simp add: patchDatalayer_def split_beta)
  moreover have "trace (snd (invokePush via (push (patchDatalayer dl)) args w)) = trace w"
    by (simp add: patchDatalayer_def split_beta splitLongTask_def yieldUnlessUrgent_def prims
          resolvePendingPromises_eq Let_def)
  moreover have "reactions (snd (invokePush via (push (patchDatalayer dl)) args w)) =
     reactions w @ [(fst (splitLongTask w), PushK (push dl) args)]"
    by (simp add: patchDatalayer_def split_beta splitLongTask_def yieldUnlessUrgent_def prims
          resolvePendingPromises_eq Let_def)
  moreover have "settled w p = Pending \<Longrightarrow> job p w = w" by (simp add: job_def)
  ultimately show ?thesis by blast
qed

text \<open>One patched push on a visible page, the page is hidden, then the job of the yield promise.\<close>

theorem patched_push_witness:
  "settled (init True False None 0) 0 = Pending \<and> job 0 (init True False None 0) = init True False None 0 \<and>
   OrigPush 0 [JNum 5] \<in> set (trace (exec [CallPush (Orig push0) [JNum 5], Dispatch VisibilityChange, Job 0] (init True False None 0))) \<and>
   Ran 0 \<in> set (trace (exec [CallPush (Orig push0) [JNum 5], Dispatch VisibilityChange, Job 0] (init True False None 0))) \<and>
   settled (exec [CallPush (Orig push0) [JNum 5], Dispatch VisibilityChange, Job 0] (init True False None 0)) 0 \<noteq> Pending"
proof -
  have a: "settled (init True False None 0) 0 = Pending" by (simp add: init_def)
  have b: "OrigPush 0 [JNum 5] \<in> set (trace (exec [CallPush (Orig push0) [JNum 5], Dispatch VisibilityChange, Job 0] (init True False None 0)))"
    by (simp add: evals patchDatalayer_def push0_def)
  show ?thesis
    using a b patched_push_is_deferred[of 0 "\<lparr>push = Orig push0\<rparr>" "[]" "init True False None 0" 0 "[JNum 5]"
       "[CallPush (Orig push0) [JNum 5], Dispatch VisibilityChange, Job 0]" True False None 0]
    by simp
qed


section \<open>Image prioritisation is idempotent on the matched elements\<close>

lemma prioritize_idem: "prioritize (prioritize el) = prioritize el"
  by (simp add: prioritize_def setAttribute_def setProperty_def)

lemma fold_prioritize:
  "fold (\<lambda>i d. d(i := prioritize (d i))) ids doc j =
     (if j \<in> set ids then prioritize (doc j) else doc j)"
proof (induction ids arbitrary: doc)
  case Nil
  show ?case by simp
next
  case (Cons i ids)
  let ?f = "\<lambda>i d. d(i := prioritize (d i))"
  have "fold ?f (i # ids) doc j = fold ?f ids (?f i doc) j"
    by (simp only: fold_simps comp_apply)
  also have "\<dots> = (if j \<in> set ids then prioritize ((?f i doc) j) else (?f i doc) j)"
    by (rule Cons.IH)
  also have "\<dots> = (if j \<in> set (i # ids) then prioritize (doc j) else doc j)"
    by (auto simp: prioritize_idem)
  finally show ?case .
qed

text \<open>
  Claim C9, as stated, fails: the selector is evaluated afresh by every call, on the document
  as it then is. With \<^verbatim>\<open>#a, #a[loading="eager"] + img\<close> on a document of elements without
  attributes, the first call matches element 0 alone and changes it; the second call
  matches elements 0 and 1, and leaves the matched element 1 in a state (both attributes
  and both properties set) that one call does not give it.
\<close>

theorem second_call_changes_newly_matched_image:
  "matched (Some after_eager) blank = [0] \<and>
   prioritizeImages (Some after_eager) blank = Inr (blank(0 := prioritize img0)) \<and>
   matched (Some after_eager) (blank(0 := prioritize img0)) = [0, 1] \<and>
   prioritizeImages (Some after_eager) (blank(0 := prioritize img0))
     = Inr (blank(0 := prioritize img0, 1 := prioritize img0)) \<and>
   (blank(0 := prioritize img0)) 1 = img0 \<and>
   (blank(0 := prioritize img0, 1 := prioritize img0)) 1 = prioritize img0 \<and>
   prioritize img0 \<noteq> img0 \<and>
   blank(0 := prioritize img0, 1 := prioritize img0) \<noteq> blank(0 := prioritize img0)"
proof -
  have e: "attrs (prioritize img0) ''loading'' = Some ''eager''"
    by (simp add: prioritize_def setAttribute_def setProperty_def)
  have n: "attrs img0 ''loading'' = None" by (simp add: img0_def)
  have d: "prioritize img0 \<noteq> img0" using e n by auto
  have m0: "matched (Some after_eager) blank = [0]"
    by (simp add: matched_def querySelectorAll_def after_eager_def blank_def n)
  have m1: "matched (Some after_eager) (blank(0 := prioritize img0)) = [0, 1]"
    by (simp add: matched_def querySelectorAll_def after_eager_def e)
  have p0: "prioritizeImages (Some after_eager) blank = Inr (blank(0 := prioritize img0))"
    by (simp add: prioritizeImages_def querySelectorAll_def after_eager_def blank_def n)
  have p1: "prioritizeImages (Some after_eager) (blank(0 := prioritize img0))
     = Inr (blank(0 := prioritize img0, 1 := prioritize img0))"
    by (simp add: prioritizeImages_def querySelectorAll_def after_eager_def e prioritize_idem blank_def)
  have "(blank(0 := prioritize img0, 1 := prioritize img0)) 1 \<noteq> (blank(0 := prioritize img0)) 1"
    using d by (simp add: blank_def)
  then have w: "blank(0 := prioritize img0, 1 := prioritize img0) \<noteq> blank(0 := prioritize img0)"
    by metis
  show ?thesis using m0 m1 p0 p1 d w by (simp add: blank_def)
qed

text \<open>
  Claim C9, amended. For every selector and document: a selector that does not parse throws
  (both times alike); otherwise neither call throws, every element the first call matched
  is, after the first call, in the prioritised state (both attributes and both properties
  set), and the second call leaves each of them exactly as the first call did. The second
  call prioritises the elements the selector matches after the first call and touches no
  other; so the whole document is the same after two calls as after one exactly when every
  element matched by the second call is already in the prioritised state, which is so
  whenever the second call matches no element the first did not match. With zero matches
  the document is unchanged.
\<close>

theorem prioritizeImages_idempotent_on_matches:
  "(case prioritizeImages sel doc of
      Inl e \<Rightarrow> sel = None
    | Inr d1 \<Rightarrow>
        (case prioritizeImages sel d1 of
           Inl e \<Rightarrow> False
         | Inr d2 \<Rightarrow>
             (\<forall>i \<in> set (matched sel doc). d2 i = d1 i \<and> d1 i = prioritize (doc i)) \<and>
             (\<forall>i. d1 i = (if i \<in> set (matched sel doc) then prioritize (doc i) else doc i)) \<and>
             (\<forall>i. d2 i = (if i \<in> set (matched sel d1) then prioritize (d1 i) else d1 i)) \<and>
             (d2 = d1 \<longleftrightarrow> (\<forall>i \<in> set (matched sel d1). prioritize (d1 i) = d1 i)) \<and>
             (set (matched sel d1) \<subseteq> set (matched sel doc) \<longrightarrow> d2 = d1) \<and>
             (matched sel doc = [] \<longrightarrow> d1 = doc)))"
proof (cases sel)
  case None
  then show ?thesis by (simp add: prioritizeImages_def querySelectorAll_def)
next
  case (Some m)
  let ?d1 = "fold (\<lambda>i d. d(i := prioritize (d i))) (m doc) doc"
  let ?d2 = "fold (\<lambda>i d. d(i := prioritize (d i))) (m ?d1) ?d1"
  have p1: "prioritizeImages sel doc = Inr ?d1"
    using Some by (simp add: prioritizeImages_def querySelectorAll_def)
  have p2: "prioritizeImages sel ?d1 = Inr ?d2"
    using Some by (simp add: prioritizeImages_def querySelectorAll_def)
  have m1: "matched sel doc = m doc" "matched sel ?d1 = m ?d1"
    using Some by (simp_all add: matched_def querySelectorAll_def)
  have a: "\<forall>i \<in> set (m doc). ?d2 i = ?d1 i \<and> ?d1 i = prioritize (doc i)"
    by (simp add: fold_prioritize prioritize_idem)
  have f1: "\<forall>i. ?d1 i = (if i \<in> set (m doc) then prioritize (doc i) else doc i)"
    by (simp only: fold_prioritize) simp
  have f2: "\<forall>i. ?d2 i = (if i \<in> set (m ?d1) then prioritize (?d1 i) else ?d1 i)"
    by (simp only: fold_prioritize[of "m ?d1" ?d1]) simp
  have e: "?d2 = ?d1 \<longleftrightarrow> (\<forall>i \<in> set (m ?d1). prioritize (?d1 i) = ?d1 i)"
  proof
    assume eq: "?d2 = ?d1"
    show "\<forall>i \<in> set (m ?d1). prioritize (?d1 i) = ?d1 i"
    proof
      fix i assume i: "i \<in> set (m ?d1)"
      have "?d2 i = prioritize (?d1 i)" using f2 i by simp
      then show "prioritize (?d1 i) = ?d1 i" using eq by simp
    qed
  next
    assume al: "\<forall>i \<in> set (m ?d1). prioritize (?d1 i) = ?d1 i"
    show "?d2 = ?d1"
    proof (rule ext)
      fix i
      show "?d2 i = ?d1 i" using f2 al by (cases "i \<in> set (m ?d1)") simp_all
    qed
  qed
  have b: "set (m ?d1) \<subseteq> set (m doc) \<Longrightarrow> ?d2 = ?d1"
    by (rule ext) (auto simp: fold_prioritize prioritize_idem)
  have c: "m doc = [] \<Longrightarrow> ?d1 = doc" by simp
  show ?thesis unfolding p1 p2 m1 sum.case using a f1 f2 e b c by blast
qed

text \<open>
  Three images matched by \<^verbatim>\<open>img\<close>: the second call matches the same three, writes each of
  them again, and changes nothing. Three images matched by \<^verbatim>\<open>:not([loading="eager"])\<close>: the
  second call matches none. The selector list above: the element the first call matched is
  written again and stays as it was. And a selector that matches nothing.
\<close>

theorem prioritizeImages_witness:
  "matched (Some all_imgs) blank = [0, 1, 2] \<and>
   matched (Some all_imgs) (projr (prioritizeImages (Some all_imgs) blank)) = [0, 1, 2] \<and>
   projr (prioritizeImages (Some all_imgs) (projr (prioritizeImages (Some all_imgs) blank)))
     = projr (prioritizeImages (Some all_imgs) blank) \<and>
   projr (prioritizeImages (Some all_imgs) blank) 1 = prioritize img0 \<and>
   projr (prioritizeImages (Some all_imgs) blank) 3 = img0 \<and>
   matched (Some lazy_imgs) blank = [0, 1, 2] \<and>
   matched (Some lazy_imgs) (projr (prioritizeImages (Some lazy_imgs) blank)) = [] \<and>
   projr (prioritizeImages (Some lazy_imgs) (projr (prioritizeImages (Some lazy_imgs) blank)))
     = projr (prioritizeImages (Some lazy_imgs) blank) \<and>
   matched (Some after_eager) blank = [0] \<and>
   projr (prioritizeImages (Some after_eager) (projr (prioritizeImages (Some after_eager) blank))) 0
     = projr (prioritizeImages (Some after_eager) blank) 0 \<and>
   projr (prioritizeImages (Some after_eager) blank) 0 = prioritize img0 \<and>
   matched (Some (\<lambda>d. [])) blank = [] \<and>
   prioritizeImages (Some (\<lambda>d. [])) blank = Inr blank"
proof -
  let ?d1 = "fold (\<lambda>i d. d(i := prioritize (d i))) [0, 1, 2] blank"
  have a0: "matched (Some all_imgs) blank = [0, 1, 2]"
    by (simp add: matched_def querySelectorAll_def all_imgs_def)
  have a1: "prioritizeImages (Some all_imgs) blank = Inr ?d1"
    by (simp add: prioritizeImages_def querySelectorAll_def all_imgs_def)
  have a2: "matched (Some all_imgs) ?d1 = [0, 1, 2]"
    by (simp add: matched_def querySelectorAll_def all_imgs_def)
  have m0: "matched (Some lazy_imgs) blank = [0, 1, 2]"
    by (simp add: matched_def querySelectorAll_def lazy_imgs_def img0_def blank_def)
  have p1: "prioritizeImages (Some lazy_imgs) blank = Inr ?d1"
    by (simp add: prioritizeImages_def querySelectorAll_def lazy_imgs_def img0_def blank_def)
  have m1: "matched (Some lazy_imgs) ?d1 = []"
    by (simp add: matched_def querySelectorAll_def lazy_imgs_def prioritize_def
          setAttribute_def setProperty_def)
  have e0: "matched (Some after_eager) blank = [0]"
    by (simp add: matched_def querySelectorAll_def after_eager_def img0_def blank_def)
  have z: "matched (Some (\<lambda>d. [])) blank = []"
    by (simp add: matched_def querySelectorAll_def)
  have b: "blank 0 = img0" "blank 1 = img0" "blank 3 = img0" by (simp_all add: blank_def)
  show ?thesis
    using a0 a1 a2 m0 p1 m1 e0 z b
      prioritizeImages_idempotent_on_matches[of "Some all_imgs" blank]
      prioritizeImages_idempotent_on_matches[of "Some lazy_imgs" blank]
      prioritizeImages_idempotent_on_matches[of "Some after_eager" blank]
      prioritizeImages_idempotent_on_matches[of "Some (\<lambda>d. [])" blank]
    by (simp split: sum.splits)
qed


section \<open>Resource prefetch\<close>

text \<open>
  Claim C8. \<^verbatim>\<open>prefetchResources\<close> never reads its parameter. With the identifier \<^verbatim>\<open>url\<close>
  unbound, the call with two URLs rejects with a ReferenceError, queues nothing and inserts
  no link; with \<^verbatim>\<open>url\<close> bound globally, one link to that value is inserted once the idle
  callback runs, whatever the list holds.
\<close>

theorem prefetch_ignores_its_argument:
  "prefetchResources urls w = prefetchResources [] w \<and>
   settled (exec [CallPrefetch [JStr ''/hero.jpg'', JStr ''/font.woff2'']] (init True False None 0)) 0
     = Rejected (JStr ''ReferenceError: url is not defined'') \<and>
   hostq (exec [CallPrefetch [JStr ''/hero.jpg'', JStr ''/font.woff2'']] (init True False None 0)) = [] \<and>
   doc_head (exec [CallPrefetch [JStr ''/hero.jpg'', JStr ''/font.woff2'']] (init True False None 0)) = [] \<and>
   doc_head (exec [CallPrefetch [JStr ''/hero.jpg'', JStr ''/font.woff2''], Fire 1]
       (init True False (Some (JStr ''/other'')) 0))
     = [\<lparr>link_rel = ''prefetch'', link_href = JStr ''/other''\<rparr>]"
  by (simp add: prefetchResources_def evals)


section \<open>Steps that do not concern a promise\<close>

lemma same_refl: "own t w \<Longrightarrow> same t w w"
  by (simp add: same_def)

lemma same_trans: "same t w w1 \<Longrightarrow> same t w1 w2 \<Longrightarrow> same t w w2"
  by (simp add: same_def)

lemma same_own: "same t w w' \<Longrightarrow> own t w'"
  by (simp add: same_def)

lemma same_yield: "own t w \<Longrightarrow> same t w (snd (yieldUnlessUrgent w))"
  by (auto simp: same_def own_def mine_def yieldUnlessUrgent_def prims resolvePendingPromises_eq Let_def)

lemma same_then: "own t w \<Longrightarrow> cont_target k \<noteq> Some t \<Longrightarrow> same t w (thenK p k w)"
  by (simp add: same_def own_def mine_def thenK_def)

lemma same_callFn: "own t w \<Longrightarrow> tag \<noteq> t \<Longrightarrow> same t w (snd (callFn tag fn args w))"
  by (simp add: same_def own_def mine_def callFn_def)

lemma same_resolve: "own t w \<Longrightarrow> q \<noteq> t \<Longrightarrow> same t w (resolvePromise q v w)"
  by (simp add: same_def own_def mine_def resolvePromise_def)

lemma same_reject: "own t w \<Longrightarrow> q \<noteq> t \<Longrightarrow> same t w (rejectPromise q v w)"
  by (simp add: same_def own_def mine_def rejectPromise_def)

lemma same_cleanup: "own t w \<Longrightarrow> same t w (cleanup c w)"
  by (simp add: same_def own_def mine_def cleanup_eq)

lemma same_log: "own t w \<Longrightarrow> \<not> about t e \<Longrightarrow> same t w (w\<lparr>trace := trace w @ [e]\<rparr>)"
  by (simp add: same_def own_def mine_def)

lemma same_newPromise: "own t w \<Longrightarrow> same t w (snd (newPromise w))"
  by (simp add: same_def own_def mine_def newPromise_def)

lemma same_addHost: "own t w \<Longrightarrow> cb_target c \<noteq> t \<Longrightarrow> same t w (snd (addHost src c w))"
  by (simp add: same_def own_def mine_def addHost_def)

lemma same_runCb: "own t w \<Longrightarrow> cb_target c \<noteq> t \<Longrightarrow> same t w (runCb c w)"
  by (cases c) (auto simp: same_def own_def mine_def prims split: completion.splits)

lemma same_await:
  assumes o: "own t w" and k: "cont_target k \<noteq> Some t"
  shows "same t w (thenK (fst (yieldUnlessUrgent w)) k (snd (yieldUnlessUrgent w)))"
proof -
  have 1: "same t w (snd (yieldUnlessUrgent w))" using o by (rule same_yield)
  have "same t (snd (yieldUnlessUrgent w)) (thenK (fst (yieldUnlessUrgent w)) k (snd (yieldUnlessUrgent w)))"
    using same_own[OF 1] k by (rule same_then)
  with 1 show ?thesis by (rule same_trans)
qed

lemma same_iterLoop:
  "own t w \<Longrightarrow> out \<noteq> t \<Longrightarrow> same t w (iterLoop out fn limit deadline items w)"
proof (induction items arbitrary: w)
  case Nil
  then show ?case by (simp add: same_resolve)
next
  case (Cons item rest)
  show ?case
  proof (cases "num_ge (now w) deadline")
    case True
    let ?w1 = "snd (yieldUnlessUrgent w)"
    let ?w2 = "?w1\<lparr>trace := trace ?w1 @ [Yielded out]\<rparr>"
    have 1: "same t w ?w1" using Cons.prems(1) by (rule same_yield)
    have 2: "same t ?w1 ?w2" using same_own[OF 1] Cons.prems(2) by (simp add: same_log)
    have 12: "same t w ?w2" using 1 2 by (rule same_trans)
    have 3: "same t ?w2 (thenK (fst (yieldUnlessUrgent w)) (IterK out fn limit item rest) ?w2)"
      using same_own[OF 12] Cons.prems(2) by (simp add: same_then)
    show ?thesis using True same_trans[OF 12 3] by (simp add: splitLongTask_def split_beta)
  next
    case False
    let ?w1 = "snd (callFn out fn [item] w)"
    have 1: "same t w ?w1" using Cons.prems by (rule same_callFn)
    show ?thesis
    proof (cases "snd (fn [item])")
      case (Return r)
      have "same t ?w1 (iterLoop out fn limit deadline rest ?w1)"
        using same_own[OF 1] Cons.prems(2) by (rule Cons.IH)
      with 1 have "same t w (iterLoop out fn limit deadline rest ?w1)" by (rule same_trans)
      then show ?thesis using False Return by (simp add: callFn_def)
    next
      case (Throw e)
      have "same t ?w1 (rejectPromise out e ?w1)"
        using same_own[OF 1] Cons.prems(2) by (rule same_reject)
      with 1 have "same t w (rejectPromise out e ?w1)" by (rule same_trans)
      then show ?thesis using False Throw by (simp add: callFn_def)
    qed
  qed
qed

lemma same_iterResume:
  assumes o: "own t w" and d: "out \<noteq> t"
  shows "same t w (iterResume out fn limit item rest w)"
proof -
  let ?w1 = "snd (callFn out fn [item] w)"
  have 1: "same t w ?w1" using o d by (rule same_callFn)
  show ?thesis
  proof (cases "snd (fn [item])")
    case (Return r)
    have "same t ?w1 (iterLoop out fn limit (num_add (now w) limit) rest ?w1)"
      using same_own[OF 1] d by (rule same_iterLoop)
    with 1 have "same t w (iterLoop out fn limit (num_add (now w) limit) rest ?w1)" by (rule same_trans)
    then show ?thesis using Return by (simp add: iterResume_def callFn_def)
  next
    case (Throw e)
    have "same t ?w1 (rejectPromise out e ?w1)"
      using same_own[OF 1] d by (rule same_reject)
    with 1 have "same t w (rejectPromise out e ?w1)" by (rule same_trans)
    then show ?thesis using Throw by (simp add: iterResume_def callFn_def)
  qed
qed

lemma same_splitLongIteration:
  assumes o: "own t w"
  shows "same t w (snd (splitLongIteration items fn limit w))"
proof -
  have 1: "same t w (snd (newPromise w))" using o by (rule same_newPromise)
  have n: "nextId w \<noteq> t" using o by (simp add: own_def)
  have "same t (snd (newPromise w))
          (iterLoop (nextId w) fn limit (num_add (now w) limit) items (snd (newPromise w)))"
    using same_own[OF 1] n by (rule same_iterLoop)
  with 1 have "same t w (iterLoop (nextId w) fn limit (num_add (now w) limit) items (snd (newPromise w)))"
    by (rule same_trans)
  then show ?thesis
    by (simp add: splitLongIteration_def split_beta newPromise_def)
qed

lemma same_invokePush:
  assumes o: "own t w"
  shows "same t w (snd (invokePush via f args w))"
proof (cases f)
  case (Orig fn)
  then show ?thesis using o by (simp add: same_def own_def mine_def)
next
  case (Patched g)
  then show ?thesis using same_await[OF o, of "PushK g args"]
    by (simp add: splitLongTask_def split_beta)
qed

lemma same_afterNextPaint: "own t w \<Longrightarrow> same t w (snd (afterNextPaint fn w))"
  by (auto simp: afterNextPaint_def prims same_def own_def mine_def)

lemma same_prefetchResources: "own t w \<Longrightarrow> same t w (snd (prefetchResources urls w))"
  by (auto simp: prefetchResources_def prims same_def own_def mine_def split: option.splits)

lemma same_runCont:
  assumes o: "own t w" and k: "cont_target k \<noteq> Some t"
  shows "same t w (runCont p k st w)"
proof (cases k)
  case (IterK out fn limit item rest)
  then have d: "out \<noteq> t" using k by simp
  show ?thesis using IterK same_iterResume[OF o d] same_reject[OF o d]
    by (cases st) simp_all
next
  case (PushK f args)
  let ?w1 = "snd (invokePush p f args w)"
  have 1: "same t w ?w1" using o by (rule same_invokePush)
  have "\<And>e. same t ?w1 (?w1\<lparr>trace := trace ?w1 @ [Uncaught e]\<rparr>)"
    using same_own[OF 1] by (simp add: same_log)
  with 1 have 2: "\<And>e. same t w (?w1\<lparr>trace := trace ?w1 @ [Uncaught e]\<rparr>)"
    by (rule same_trans)
  show ?thesis using PushK 1 2 same_refl[OF o]
    by (cases st; cases "fst (invokePush p f args w)") (simp_all add: split_beta)
next
  case (PaintK fn out)
  then have d: "out \<noteq> t" using k by simp
  let ?w1 = "snd (callFn out fn [] w)"
  have 1: "same t w ?w1" using o d by (rule same_callFn)
  have "\<And>v. same t ?w1 (resolvePromise out v ?w1)" using same_own[OF 1] d by (rule same_resolve)
  with 1 have 2: "\<And>v. same t w (resolvePromise out v ?w1)" by (rule same_trans)
  have "\<And>v. same t ?w1 (rejectPromise out v ?w1)" using same_own[OF 1] d by (rule same_reject)
  with 1 have 3: "\<And>v. same t w (rejectPromise out v ?w1)" by (rule same_trans)
  show ?thesis using PaintK 2 3 same_reject[OF o d]
    by (cases st; cases "fst (callFn out fn [] w)") (simp_all add: split_beta)
next
  case (UserK tag)
  then show ?thesis using same_refl[OF o] by simp
qed

lemma takeReaction_mine_other:
  "takeReaction p rs = Some (k, rs') \<Longrightarrow> cont_target k \<noteq> Some t \<Longrightarrow>
   filter (\<lambda>(p, k). cont_target k = Some t) rs' = filter (\<lambda>(p, k). cont_target k = Some t) rs"
proof (induction rs arbitrary: rs')
  case Nil
  then show ?case by simp
next
  case (Cons r rs)
  obtain q' k' where r: "r = (q', k')" by (cases r)
  show ?case
  proof (cases "q' = p")
    case True
    then show ?thesis using Cons.prems r by auto
  next
    case False
    then obtain rs'' where t: "takeReaction p rs = Some (k, rs'')" and e: "rs' = (q', k') # rs''"
      using Cons.prems(1) r by (auto split: option.splits)
    show ?thesis using Cons.IH[OF t Cons.prems(2)] e r by simp
  qed
qed

lemma takeReaction_mine_single:
  "takeReaction p rs = Some (k, rs') \<Longrightarrow> cont_target k = Some t \<Longrightarrow>
   filter (\<lambda>(p, k). cont_target k = Some t) rs = [x] \<Longrightarrow>
   x = (p, k) \<and> filter (\<lambda>(p, k). cont_target k = Some t) rs' = []"
proof (induction rs arbitrary: rs')
  case Nil
  then show ?case by simp
next
  case (Cons r rs)
  obtain q' k' where r: "r = (q', k')" by (cases r)
  show ?case
  proof (cases "q' = p")
    case True
    then have kk: "k' = k" "rs' = rs" using Cons.prems(1) r by auto
    then show ?thesis using Cons.prems(2,3) r True by auto
  next
    case False
    then obtain rs'' where t: "takeReaction p rs = Some (k, rs'')" and e: "rs' = (q', k') # rs''"
      using Cons.prems(1) r by (auto split: option.splits)
    have mem: "(p, k) \<in> set rs" using t
    proof (induction rs arbitrary: rs'')
      case Nil
      then show ?case by simp
    next
      case (Cons a rs)
      then show ?case by (cases a) (auto split: if_splits option.splits)
    qed
    then have "(p, k) \<in> set (filter (\<lambda>(p, k). cont_target k = Some t) rs)"
      using Cons.prems(2) by simp
    then have ne: "filter (\<lambda>(p, k). cont_target k = Some t) rs \<noteq> []"
      by (auto simp: filter_empty_conv)
    have nk: "cont_target k' \<noteq> Some t"
    proof
      assume "cont_target k' = Some t"
      then have "filter (\<lambda>(p, k). cont_target k = Some t) (r # rs) = r # filter (\<lambda>(p, k). cont_target k = Some t) rs"
        using r by simp
      then show False using Cons.prems(3) ne by simp
    qed
    then have f: "filter (\<lambda>(p, k). cont_target k = Some t) rs = [x]"
      using Cons.prems(3) r by simp
    show ?thesis using Cons.IH[OF t Cons.prems(2) f] e nk by simp
  qed
qed

lemma same_job:
  assumes o: "own t w"
    and f: "\<And>k rs. takeReaction p (reactions w) = Some (k, rs) \<Longrightarrow> cont_target k \<noteq> Some t"
  shows "same t w (job p w)"
proof (cases "settled w p = Pending \<or> takeReaction p (reactions w) = None")
  case True
  then show ?thesis using same_refl[OF o] by (auto simp: job_def)
next
  case False
  then obtain k rs where t: "takeReaction p (reactions w) = Some (k, rs)" and st: "settled w p \<noteq> Pending"
    by auto
  have k: "cont_target k \<noteq> Some t" using t by (rule f)
  let ?w1 = "w\<lparr>reactions := rs, trace := trace w @ [Ran p]\<rparr>"
  have 1: "same t w ?w1"
    using o takeReaction_mine_other[OF t k] by (simp add: same_def own_def mine_def)
  have "same t ?w1 (runCont p k (settled w p) ?w1)" using same_own[OF 1] k by (rule same_runCont)
  with 1 have "same t w (runCont p k (settled w p) ?w1)" by (rule same_trans)
  then show ?thesis using t st by (simp add: job_def)
qed

lemma takeHost_sub:
  "takeHost i hs = Some (c, hs') \<Longrightarrow> list_all (\<lambda>h. P (snd (snd h))) hs \<Longrightarrow>
   P c \<and> list_all (\<lambda>h. P (snd (snd h))) hs'"
proof (induction hs arbitrary: hs')
  case Nil
  then show ?case by simp
next
  case (Cons h hs)
  obtain j src c' where h: "h = (j, src, c')" by (cases h)
  show ?case
  proof (cases "j = i")
    case True
    then show ?thesis using Cons.prems h by auto
  next
    case False
    then obtain hs'' where t: "takeHost i hs = Some (c, hs'')" and e: "hs' = (j, src, c') # hs''"
      using Cons.prems h by (auto split: option.splits)
    have "list_all (\<lambda>h. P (snd (snd h))) hs" using Cons.prems(2) by simp
    then show ?thesis using Cons.IH[OF t] e h Cons.prems(2) by simp
  qed
qed

lemma same_fire:
  assumes o: "own t w"
  shows "same t w (fire i w)"
proof (cases "takeHost i (hostq w)")
  case None
  then show ?thesis using same_refl[OF o] by (simp add: fire_def)
next
  case (Some a)
  obtain c hs where a: "a = (c, hs)" by (cases a)
  have "list_all (\<lambda>h. cb_target (snd (snd h)) \<noteq> t) (hostq w)" using o by (simp add: own_def)
  then have s: "cb_target c \<noteq> t \<and> list_all (\<lambda>h. cb_target (snd (snd h)) \<noteq> t) hs"
    using Some a by (intro takeHost_sub[of i "hostq w" c hs "\<lambda>c. cb_target c \<noteq> t"]) simp_all
  have 1: "same t w (w\<lparr>hostq := hs\<rparr>)" using o s by (simp add: same_def own_def mine_def)
  have "same t (w\<lparr>hostq := hs\<rparr>) (runCb c (w\<lparr>hostq := hs\<rparr>))"
    using same_own[OF 1] s by (simp add: same_runCb)
  with 1 have "same t w (runCb c (w\<lparr>hostq := hs\<rparr>))" by (rule same_trans)
  then show ?thesis using Some a by (simp add: fire_def)
qed

lemma same_fold_runCb:
  "own t w \<Longrightarrow> list_all (\<lambda>h. cb_target (snd (snd h)) \<noteq> t) cs \<Longrightarrow>
   same t w (fold (\<lambda>(i, src, c). runCb c) cs w)"
proof (induction cs arbitrary: w)
  case Nil
  then show ?case by (simp add: same_refl)
next
  case (Cons h cs)
  obtain j src c where h: "h = (j, src, c)" by (cases h)
  have c: "cb_target c \<noteq> t" and r: "list_all (\<lambda>h. cb_target (snd (snd h)) \<noteq> t) cs"
    using Cons.prems(2) h by auto
  have 1: "same t w (runCb c w)" using Cons.prems(1) c by (rule same_runCb)
  have "same t (runCb c w) (fold (\<lambda>(i, src, c). runCb c) cs (runCb c w))"
    using same_own[OF 1] r by (rule Cons.IH)
  with 1 have "same t w (fold (\<lambda>(i, src, c). runCb c) cs (runCb c w))" by (rule same_trans)
  then show ?case unfolding h by simp
qed

lemma same_frame:
  assumes o: "own t w"
  shows "same t w (frame w)"
proof -
  let ?w1 = "w\<lparr>hostq := filter (\<lambda>(i, src, c). src \<noteq> Raf) (hostq w)\<rparr>"
  have 1: "same t w ?w1" using o by (simp add: same_def own_def mine_def list_all_iff)
  have "list_all (\<lambda>h. cb_target (snd (snd h)) \<noteq> t) (filter (\<lambda>(i, src, c). src = Raf) (hostq w))"
    using o by (simp add: own_def list_all_iff)
  with same_own[OF 1] have "same t ?w1 (fold (\<lambda>(i, src, c). runCb c) (filter (\<lambda>(i, src, c). src = Raf) (hostq w)) ?w1)"
    by (rule same_fold_runCb)
  with 1 show ?thesis unfolding frame_def by (rule same_trans)
qed

lemma same_sweep:
  "own t w \<Longrightarrow>
   same t w (fold (\<lambda>(e, c) w'. if (e, c) \<in> set (listeners w') then cleanup c w' else w') xs w)"
proof (induction xs arbitrary: w)
  case Nil
  then show ?case by (simp add: same_refl)
next
  case (Cons x xs)
  obtain e c where x: "x = (e, c)" by (cases x)
  let ?w1 = "if (e, c) \<in> set (listeners w) then cleanup c w else w"
  have 1: "same t w ?w1" using Cons.prems by (simp add: same_cleanup same_refl)
  have "same t ?w1 (fold (\<lambda>(e, c) w'. if (e, c) \<in> set (listeners w') then cleanup c w' else w') xs ?w1)"
    using same_own[OF 1] by (rule Cons.IH)
  with 1 have "same t w (fold (\<lambda>(e, c) w'. if (e, c) \<in> set (listeners w') then cleanup c w' else w') xs ?w1)"
    by (rule same_trans)
  then show ?case unfolding x by simp
qed

lemma same_deliver: "own t w \<Longrightarrow> same t w (deliver ev w)"
  unfolding deliver_def by (rule same_sweep)

lemma same_dispatch: "own t w \<Longrightarrow> same t w (dispatch ev w)"
  by (simp add: dispatch_def same_deliver same_refl)

lemma same_step:
  assumes o: "own t w"
    and f: "\<And>p k rs. a = Job p \<Longrightarrow> takeReaction p (reactions w) = Some (k, rs) \<Longrightarrow> cont_target k \<noteq> Some t"
  shows "same t w (step a w)"
proof (cases a)
  case (Job p)
  then show ?thesis using same_job[OF o, of p] f by simp
next
  case (CallYield tag)
  then show ?thesis using same_await[OF o, of "UserK tag"] by (simp add: splitLongTask_def split_beta)
next
  case (CallPush g args)
  have "same t w (snd (invokePush 0 (Patched g) args w))" using o by (rule same_invokePush)
  then show ?thesis using CallPush by (simp add: patchDatalayer_def del: invokePush.simps)
next
  case (SetVisible b)
  then show ?thesis using o by (simp add: same_def own_def mine_def)
next
  case (Advance n)
  then show ?thesis using o by (simp add: same_def own_def mine_def)
qed (simp_all add: o same_frame same_fire same_dispatch same_splitLongIteration
      performAsyncUiUpdate_def same_afterNextPaint same_prefetchResources)

lemma wf_init: "wf (init vis sy gu t)"
  by (simp add: wf_def init_def)

lemma wf_yield: "wf w \<Longrightarrow> wf (snd (yieldUnlessUrgent w))"
  by (auto simp: wf_def yieldUnlessUrgent_def prims resolvePendingPromises_eq Let_def less_Suc_eq)

lemma nextId_yield_le: "nextId w \<le> nextId (snd (yieldUnlessUrgent w))"
  by (simp add: yieldUnlessUrgent_def prims resolvePendingPromises_eq Let_def)

lemma wf_then: "wf w \<Longrightarrow> p < nextId w \<Longrightarrow> (\<And>t. cont_target k = Some t \<Longrightarrow> t < nextId w) \<Longrightarrow> wf (thenK p k w)"
  by (auto simp: wf_def thenK_def)

lemma wf_callFn: "wf w \<Longrightarrow> tag < nextId w \<Longrightarrow> wf (snd (callFn tag fn args w))"
  by (auto simp: wf_def callFn_def)

lemma wf_resolve: "wf w \<Longrightarrow> q < nextId w \<Longrightarrow> wf (resolvePromise q v w)"
  by (auto simp: wf_def resolvePromise_def)

lemma wf_reject: "wf w \<Longrightarrow> q < nextId w \<Longrightarrow> wf (rejectPromise q v w)"
  by (auto simp: wf_def rejectPromise_def)

lemma wf_cleanup: "wf w \<Longrightarrow> wf (cleanup c w)"
  by (auto simp: wf_def cleanup_eq)

lemma wf_log: "wf w \<Longrightarrow> (\<And>t. about t e \<Longrightarrow> t < nextId w) \<Longrightarrow> wf (w\<lparr>trace := trace w @ [e]\<rparr>)"
  by (auto simp: wf_def)

lemma wf_runCb: "wf w \<Longrightarrow> cb_target c < nextId w \<Longrightarrow> wf (runCb c w)"
  by (cases c) (auto simp: wf_def prims less_Suc_eq split: completion.splits)

lemma wf_suspend:
  assumes w: "wf w" and k: "\<And>t. cont_target k = Some t \<Longrightarrow> t < nextId w"
    and e: "\<And>t. about t e \<Longrightarrow> t < nextId w"
  shows "wf (thenK (fst (yieldUnlessUrgent w)) k ((snd (yieldUnlessUrgent w))\<lparr>trace := trace (snd (yieldUnlessUrgent w)) @ [e]\<rparr>))"
proof -
  let ?w1 = "snd (yieldUnlessUrgent w)"
  have 1: "wf ?w1" using w by (rule wf_yield)
  have n: "nextId w \<le> nextId ?w1" by (rule nextId_yield_le)
  have 2: "wf (?w1\<lparr>trace := trace ?w1 @ [e]\<rparr>)"
    using 1 by (rule wf_log) (use e n in force)
  have p: "fst (yieldUnlessUrgent w) < nextId ?w1" using nextId_yield[of w] by (simp add: fst_yield)
  show ?thesis using 2 by (rule wf_then) (use k n p in force)+
qed

lemma wf_await:
  assumes w: "wf w" and k: "\<And>t. cont_target k = Some t \<Longrightarrow> t < nextId w"
  shows "wf (thenK (fst (yieldUnlessUrgent w)) k (snd (yieldUnlessUrgent w)))"
proof -
  have n: "nextId w \<le> nextId (snd (yieldUnlessUrgent w))" by (rule nextId_yield_le)
  have p: "fst (yieldUnlessUrgent w) < nextId (snd (yieldUnlessUrgent w))"
    using nextId_yield[of w] by (simp add: fst_yield)
  show ?thesis using wf_yield[OF w] by (rule wf_then) (use k n p in force)+
qed

lemma wf_iterLoop:
  "wf w \<Longrightarrow> out < nextId w \<Longrightarrow> wf (iterLoop out fn limit deadline items w)"
proof (induction items arbitrary: w)
  case Nil
  then show ?case by (simp add: wf_resolve)
next
  case (Cons item rest)
  show ?case
  proof (cases "num_ge (now w) deadline")
    case True
    have "wf (thenK (fst (yieldUnlessUrgent w)) (IterK out fn limit item rest)
            ((snd (yieldUnlessUrgent w))\<lparr>trace := trace (snd (yieldUnlessUrgent w)) @ [Yielded out]\<rparr>))"
      using Cons.prems(1) by (rule wf_suspend) (use Cons.prems(2) in simp_all)
    then show ?thesis using True by (simp add: splitLongTask_def split_beta)
  next
    case False
    let ?w1 = "snd (callFn out fn [item] w)"
    have 1: "wf ?w1" using Cons.prems by (rule wf_callFn)
    have n: "out < nextId ?w1" using Cons.prems(2) by (simp add: callFn_def)
    show ?thesis
    proof (cases "snd (fn [item])")
      case (Return r)
      then show ?thesis using False Cons.IH[OF 1 n] by (simp add: callFn_def)
    next
      case (Throw e)
      then show ?thesis using False wf_reject[OF 1 n] by (simp add: callFn_def)
    qed
  qed
qed

lemma wf_iterResume:
  assumes w: "wf w" and o: "out < nextId w"
  shows "wf (iterResume out fn limit item rest w)"
proof -
  let ?w1 = "snd (callFn out fn [item] w)"
  have 1: "wf ?w1" using w o by (rule wf_callFn)
  have n: "out < nextId ?w1" using o by (simp add: callFn_def)
  show ?thesis
  proof (cases "snd (fn [item])")
    case (Return r)
    then show ?thesis using wf_iterLoop[OF 1 n] by (simp add: iterResume_def callFn_def)
  next
    case (Throw e)
    then show ?thesis using wf_reject[OF 1 n] by (simp add: iterResume_def callFn_def)
  qed
qed

lemma wf_newPromise: "wf w \<Longrightarrow> wf (snd (newPromise w))"
  by (auto simp: wf_def newPromise_def less_Suc_eq)

lemma wf_splitLongIteration: "wf w \<Longrightarrow> wf (snd (splitLongIteration items fn limit w))"
proof -
  assume w: "wf w"
  have "wf (iterLoop (nextId w) fn limit (num_add (now w) limit) items (snd (newPromise w)))"
    using wf_newPromise[OF w] by (rule wf_iterLoop) (simp add: newPromise_def)
  then show ?thesis by (simp add: splitLongIteration_def split_beta newPromise_def)
qed

lemma wf_invokePush: "wf w \<Longrightarrow> wf (snd (invokePush via f args w))"
proof (cases f)
  case (Orig fn)
  assume "wf w"
  then show ?thesis using Orig by (auto simp: wf_def)
next
  case (Patched g)
  assume w: "wf w"
  have "wf (thenK (fst (yieldUnlessUrgent w)) (PushK g args) (snd (yieldUnlessUrgent w)))"
    using w by (rule wf_await) simp
  then show ?thesis using Patched by (simp add: splitLongTask_def split_beta)
qed

lemma wf_afterNextPaint: "wf w \<Longrightarrow> wf (snd (afterNextPaint fn w))"
  by (auto simp: afterNextPaint_def prims wf_def less_Suc_eq)

lemma wf_prefetchResources: "wf w \<Longrightarrow> wf (snd (prefetchResources urls w))"
  by (auto simp: prefetchResources_def prims wf_def less_Suc_eq split: option.splits)

lemma wf_runCont:
  assumes w: "wf w" and k: "\<And>t. cont_target k = Some t \<Longrightarrow> t < nextId w"
  shows "wf (runCont p k st w)"
proof (cases k)
  case (IterK out fn limit item rest)
  then have o: "out < nextId w" using k by simp
  show ?thesis using IterK wf_iterResume[OF w o] wf_reject[OF w o] by (cases st) simp_all
next
  case (PushK f args)
  let ?w1 = "snd (invokePush p f args w)"
  have 1: "wf ?w1" using w by (rule wf_invokePush)
  have 2: "\<And>e. wf (?w1\<lparr>trace := trace ?w1 @ [Uncaught e]\<rparr>)" using 1 by (rule wf_log) simp
  show ?thesis using PushK w 1 2
    by (cases st; cases "fst (invokePush p f args w)") (simp_all add: split_beta)
next
  case (PaintK fn out)
  then have o: "out < nextId w" using k by simp
  let ?w1 = "snd (callFn out fn [] w)"
  have 1: "wf ?w1" using w o by (rule wf_callFn)
  have n: "out < nextId ?w1" using o by (simp add: callFn_def)
  show ?thesis using PaintK wf_resolve[OF 1 n] wf_reject[OF 1 n] wf_reject[OF w o]
    by (cases st; cases "fst (callFn out fn [] w)") (simp_all add: split_beta)
next
  case (UserK tag)
  then show ?thesis using w by simp
qed

lemma takeReaction_mem: "takeReaction p rs = Some (k, rs') \<Longrightarrow> (p, k) \<in> set rs \<and> set rs' \<subseteq> set rs"
proof (induction rs arbitrary: rs')
  case Nil
  then show ?case by simp
next
  case (Cons r rs)
  obtain q' k' where r: "r = (q', k')" by (cases r)
  show ?case
  proof (cases "q' = p")
    case True
    then show ?thesis using Cons.prems r by auto
  next
    case False
    then obtain rs'' where t: "takeReaction p rs = Some (k, rs'')" and e: "rs' = (q', k') # rs''"
      using Cons.prems r by (auto split: option.splits)
    show ?thesis using Cons.IH[OF t] e r by auto
  qed
qed

lemma wf_job: "wf w \<Longrightarrow> wf (job p w)"
proof -
  assume w: "wf w"
  show ?thesis
  proof (cases "settled w p = Pending \<or> takeReaction p (reactions w) = None")
    case True
    then show ?thesis using w by (auto simp: job_def)
  next
    case False
    then obtain k rs where t: "takeReaction p (reactions w) = Some (k, rs)" and st: "settled w p \<noteq> Pending"
      by auto
    let ?w1 = "w\<lparr>reactions := rs, trace := trace w @ [Ran p]\<rparr>"
    have m: "(p, k) \<in> set (reactions w)" "set rs \<subseteq> set (reactions w)"
      using takeReaction_mem[OF t] by simp_all
    have 1: "wf ?w1" using w m(2) by (auto simp: wf_def)
    have kt: "\<And>t. cont_target k = Some t \<Longrightarrow> t < nextId ?w1"
      using w m(1) by (auto simp: wf_def)
    have "wf (runCont p k (settled w p) ?w1)" using 1 kt by (rule wf_runCont)
    then show ?thesis using t st by (simp add: job_def)
  qed
qed

lemma takeHost_mem: "takeHost i hs = Some (c, hs') \<Longrightarrow> (\<exists>src. (i, src, c) \<in> set hs) \<and> set hs' \<subseteq> set hs"
proof (induction hs arbitrary: hs')
  case Nil
  then show ?case by simp
next
  case (Cons h hs)
  obtain j src c' where h: "h = (j, src, c')" by (cases h)
  show ?case
  proof (cases "j = i")
    case True
    then show ?thesis using Cons.prems h by auto
  next
    case False
    then obtain hs'' where t: "takeHost i hs = Some (c, hs'')" and e: "hs' = (j, src, c') # hs''"
      using Cons.prems h by (auto split: option.splits)
    show ?thesis using Cons.IH[OF t] e h by auto
  qed
qed

lemma wf_fire: "wf w \<Longrightarrow> wf (fire i w)"
proof -
  assume w: "wf w"
  show ?thesis
  proof (cases "takeHost i (hostq w)")
    case None
    then show ?thesis using w by (simp add: fire_def)
  next
    case (Some a)
    obtain c hs where a: "a = (c, hs)" by (cases a)
    obtain src where m: "(i, src, c) \<in> set (hostq w)" "set hs \<subseteq> set (hostq w)"
      using takeHost_mem[of i "hostq w" c hs] Some a by auto
    have 1: "wf (w\<lparr>hostq := hs\<rparr>)" using w m(2) by (auto simp: wf_def)
    have "cb_target c < nextId (w\<lparr>hostq := hs\<rparr>)" using w m(1) by (force simp: wf_def)
    with 1 have "wf (runCb c (w\<lparr>hostq := hs\<rparr>))" by (rule wf_runCb)
    then show ?thesis using Some a by (simp add: fire_def)
  qed
qed

lemma nextId_runCb: "nextId w \<le> nextId (runCb c w)"
  by (cases c) (auto simp: prims split: completion.splits)

lemma wf_fold_runCb:
  "wf w \<Longrightarrow> \<forall>h \<in> set cs. cb_target (snd (snd h)) < nextId w \<Longrightarrow>
   wf (fold (\<lambda>(i, src, c). runCb c) cs w)"
proof (induction cs arbitrary: w)
  case Nil
  then show ?case by simp
next
  case (Cons h cs)
  obtain j src c where h: "h = (j, src, c)" by (cases h)
  have 1: "wf (runCb c w)" using Cons.prems h by (simp add: wf_runCb)
  have "\<forall>h \<in> set cs. cb_target (snd (snd h)) < nextId (runCb c w)"
    using Cons.prems(2) nextId_runCb[of w c] by force
  with 1 have "wf (fold (\<lambda>(i, src, c). runCb c) cs (runCb c w))" by (rule Cons.IH)
  then show ?case unfolding h by simp
qed

lemma wf_frame: "wf w \<Longrightarrow> wf (frame w)"
proof -
  assume w: "wf w"
  let ?w1 = "w\<lparr>hostq := filter (\<lambda>(i, src, c). src \<noteq> Raf) (hostq w)\<rparr>"
  have 1: "wf ?w1" using w by (auto simp: wf_def)
  have "\<forall>h \<in> set (filter (\<lambda>(i, src, c). src = Raf) (hostq w)). cb_target (snd (snd h)) < nextId ?w1"
    using w by (auto simp: wf_def)
  with 1 show ?thesis unfolding frame_def by (rule wf_fold_runCb)
qed

lemma wf_deliver: "wf w \<Longrightarrow> wf (deliver ev w)"
  unfolding deliver_def
  by (rule fold_preserves[rotated]) (auto intro: wf_cleanup)

lemma wf_dispatch: "wf w \<Longrightarrow> wf (dispatch ev w)"
  by (simp add: dispatch_def wf_deliver)

lemma wf_step: "wf w \<Longrightarrow> wf (step a w)"
proof (cases a)
  case (CallYield tag)
  assume w: "wf w"
  have "wf (thenK (fst (yieldUnlessUrgent w)) (UserK tag) (snd (yieldUnlessUrgent w)))"
    using w by (rule wf_await) simp
  then show ?thesis using CallYield by (simp add: splitLongTask_def split_beta)
next
  case (CallPush g args)
  assume "wf w"
  then have "wf (snd (invokePush 0 (Patched g) args w))" by (rule wf_invokePush)
  then show ?thesis using CallPush by (simp add: patchDatalayer_def del: invokePush.simps)
next
  case (SetVisible b)
  assume "wf w"
  then show ?thesis using SetVisible by (simp add: wf_def)
next
  case (Advance n)
  assume "wf w"
  then show ?thesis using Advance by (simp add: wf_def)
qed (simp_all add: wf_frame wf_fire wf_job wf_dispatch wf_splitLongIteration
      performAsyncUiUpdate_def wf_afterNextPaint wf_prefetchResources)

lemma wf_exec: "wf w \<Longrightarrow> wf (exec acts w)"
  unfolding exec_def by (rule fold_preserves[rotated]) (auto intro: wf_step)


section \<open>Debounce to the next frame\<close>



lemma wf_fresh:
  assumes "wf w" and "nextId w \<le> q"
  shows "q \<notin> set (pendingResolvers w)"
    and "list_all (\<lambda>h. cb_target (snd (snd h)) \<noteq> q) (hostq w)"
    and "filter (\<lambda>(p, k). cont_target k = Some q) (reactions w) = []"
    and "filter (about q) (trace w) = []"
    and "settled w q = Pending"
  using assms by (fastforce simp: wf_def list_all_iff filter_empty_conv)+




section \<open>After the next paint\<close>







section \<open>Promises made by the yield primitive\<close>

lemma yieldp_yield: "yieldp p w \<Longrightarrow> yieldp p (snd (yieldUnlessUrgent w))"
  by (auto simp: yieldp_def mine_def yieldUnlessUrgent_def prims resolvePendingPromises_eq Let_def)

lemma yieldp_then: "yieldp p w \<Longrightarrow> cont_target k \<noteq> Some p \<Longrightarrow> yieldp p (thenK q k w)"
  by (simp add: yieldp_def mine_def thenK_def)

lemma yieldp_callFn: "yieldp p w \<Longrightarrow> yieldp p (snd (callFn tag fn args w))"
  by (simp add: yieldp_def mine_def callFn_def)

lemma yieldp_resolve: "yieldp p w \<Longrightarrow> yieldp p (resolvePromise q v w)"
  by (auto simp: yieldp_def mine_def resolvePromise_def)

lemma yieldp_reject: "yieldp p w \<Longrightarrow> q \<noteq> p \<Longrightarrow> yieldp p (rejectPromise q v w)"
  by (simp add: yieldp_def mine_def rejectPromise_def)

lemma yieldp_cleanup: "yieldp p w \<Longrightarrow> yieldp p (cleanup c w)"
  by (auto simp: yieldp_def mine_def cleanup_eq)

lemma yieldp_log: "yieldp p w \<Longrightarrow> yieldp p (w\<lparr>trace := trace w @ [e]\<rparr>)"
  by (simp add: yieldp_def mine_def)

lemma yieldp_newPromise: "yieldp p w \<Longrightarrow> yieldp p (snd (newPromise w))"
  by (simp add: yieldp_def mine_def newPromise_def)

lemma yieldp_runCb: "yieldp p w \<Longrightarrow> yieldp p (runCb c w)"
  by (cases c) (auto simp: yieldp_def mine_def prims split: completion.splits)

lemma yieldp_await:
  assumes y: "yieldp p w" and k: "cont_target k \<noteq> Some p"
  shows "yieldp p (thenK (fst (yieldUnlessUrgent w)) k (snd (yieldUnlessUrgent w)))"
  using yieldp_yield[OF y] k by (rule yieldp_then)

lemma yieldp_iterLoop:
  "yieldp p w \<Longrightarrow> out \<noteq> p \<Longrightarrow> yieldp p (iterLoop out fn limit deadline items w)"
proof (induction items arbitrary: w)
  case Nil
  then show ?case by (simp add: yieldp_resolve)
next
  case (Cons item rest)
  show ?case
  proof (cases "num_ge (now w) deadline")
    case True
    have "yieldp p ((snd (yieldUnlessUrgent w))\<lparr>trace := trace (snd (yieldUnlessUrgent w)) @ [Yielded out]\<rparr>)"
      using yieldp_yield[OF Cons.prems(1)] by (rule yieldp_log)
    then have "yieldp p (thenK (fst (yieldUnlessUrgent w)) (IterK out fn limit item rest)
        ((snd (yieldUnlessUrgent w))\<lparr>trace := trace (snd (yieldUnlessUrgent w)) @ [Yielded out]\<rparr>))"
      by (rule yieldp_then) (use Cons.prems(2) in simp)
    then show ?thesis using True by (simp add: splitLongTask_def split_beta)
  next
    case False
    let ?w1 = "snd (callFn out fn [item] w)"
    have 1: "yieldp p ?w1" using Cons.prems(1) by (rule yieldp_callFn)
    show ?thesis
    proof (cases "snd (fn [item])")
      case (Return r)
      then show ?thesis using False Cons.IH[OF 1 Cons.prems(2)] by (simp add: callFn_def)
    next
      case (Throw e)
      then show ?thesis using False yieldp_reject[OF 1 Cons.prems(2)] by (simp add: callFn_def)
    qed
  qed
qed

lemma yieldp_iterResume:
  assumes y: "yieldp p w" and d: "out \<noteq> p"
  shows "yieldp p (iterResume out fn limit item rest w)"
proof -
  let ?w1 = "snd (callFn out fn [item] w)"
  have 1: "yieldp p ?w1" using y by (rule yieldp_callFn)
  show ?thesis
  proof (cases "snd (fn [item])")
    case (Return r)
    then show ?thesis using yieldp_iterLoop[OF 1 d] by (simp add: iterResume_def callFn_def)
  next
    case (Throw e)
    then show ?thesis using yieldp_reject[OF 1 d] by (simp add: iterResume_def callFn_def)
  qed
qed

lemma yieldp_splitLongIteration:
  assumes y: "yieldp p w"
  shows "yieldp p (snd (splitLongIteration items fn limit w))"
proof -
  have n: "nextId w \<noteq> p" using y by (simp add: yieldp_def)
  have "yieldp p (iterLoop (nextId w) fn limit (num_add (now w) limit) items (snd (newPromise w)))"
    using yieldp_newPromise[OF y] n by (rule yieldp_iterLoop)
  then show ?thesis by (simp add: splitLongIteration_def split_beta newPromise_def)
qed

lemma yieldp_invokePush:
  assumes y: "yieldp p w"
  shows "yieldp p (snd (invokePush via f args w))"
proof (cases f)
  case (Orig fn)
  then show ?thesis using y by (simp add: yieldp_def mine_def)
next
  case (Patched g)
  then show ?thesis using yieldp_await[OF y, of "PushK g args"]
    by (simp add: splitLongTask_def split_beta)
qed

lemma yieldp_afterNextPaint: "yieldp p w \<Longrightarrow> yieldp p (snd (afterNextPaint fn w))"
  by (auto simp: afterNextPaint_def prims yieldp_def mine_def)

lemma yieldp_prefetchResources: "yieldp p w \<Longrightarrow> yieldp p (snd (prefetchResources urls w))"
  by (auto simp: prefetchResources_def prims yieldp_def mine_def split: option.splits)

lemma yieldp_runCont:
  assumes y: "yieldp p w" and k: "cont_target k \<noteq> Some p"
  shows "yieldp p (runCont q k st w)"
proof (cases k)
  case (IterK out fn limit item rest)
  then have d: "out \<noteq> p" using k by simp
  show ?thesis using IterK yieldp_iterResume[OF y d] yieldp_reject[OF y d]
    by (cases st) simp_all
next
  case (PushK f args)
  let ?w1 = "snd (invokePush q f args w)"
  have 1: "yieldp p ?w1" using y by (rule yieldp_invokePush)
  have 2: "\<And>e. yieldp p (?w1\<lparr>trace := trace ?w1 @ [Uncaught e]\<rparr>)"
    using 1 by (rule yieldp_log)
  show ?thesis using PushK y 1 2
    by (cases st; cases "fst (invokePush q f args w)") (simp_all add: split_beta)
next
  case (PaintK fn out)
  then have d: "out \<noteq> p" using k by simp
  let ?w1 = "snd (callFn out fn [] w)"
  have 1: "yieldp p ?w1" using y by (rule yieldp_callFn)
  show ?thesis using PaintK yieldp_resolve[OF 1] yieldp_reject[OF 1 d] yieldp_reject[OF y d]
    by (cases st; cases "fst (callFn out fn [] w)") (simp_all add: split_beta)
next
  case (UserK tag)
  then show ?thesis using y by simp
qed

lemma yieldp_job:
  assumes y: "yieldp p w"
  shows "yieldp p (job q w)"
proof (cases "settled w q = Pending \<or> takeReaction q (reactions w) = None")
  case True
  then show ?thesis using y by (auto simp: job_def)
next
  case False
  then obtain k rs where t: "takeReaction q (reactions w) = Some (k, rs)" and st: "settled w q \<noteq> Pending"
    by auto
  have mem: "(q, k) \<in> set (reactions w)" "set rs \<subseteq> set (reactions w)"
    using takeReaction_mem[OF t] by simp_all
  have "filter (\<lambda>(p', k). cont_target k = Some p) (reactions w) = []"
    using y by (simp add: yieldp_def mine_def)
  then have all: "\<forall>r \<in> set (reactions w). cont_target (snd r) \<noteq> Some p"
    by (auto simp: filter_empty_conv)
  then have k: "cont_target k \<noteq> Some p" using mem(1) by force
  have "filter (\<lambda>(p', k). cont_target k = Some p) rs = []"
    using all mem(2) by (fastforce simp: filter_empty_conv)
  then have 1: "yieldp p (w\<lparr>reactions := rs, trace := trace w @ [Ran q]\<rparr>)"
    using y by (simp add: yieldp_def mine_def)
  have "yieldp p (runCont q k (settled w q) (w\<lparr>reactions := rs, trace := trace w @ [Ran q]\<rparr>))"
    using 1 k by (rule yieldp_runCont)
  then show ?thesis using t st by (simp add: job_def)
qed

lemma yieldp_fire:
  assumes y: "yieldp p w"
  shows "yieldp p (fire i w)"
proof (cases "takeHost i (hostq w)")
  case None
  then show ?thesis using y by (simp add: fire_def)
next
  case (Some a)
  obtain c hs where a: "a = (c, hs)" by (cases a)
  have "yieldp p (w\<lparr>hostq := hs\<rparr>)" using y by (simp add: yieldp_def mine_def)
  then have "yieldp p (runCb c (w\<lparr>hostq := hs\<rparr>))" by (rule yieldp_runCb)
  then show ?thesis using Some a by (simp add: fire_def)
qed

lemma yieldp_frame:
  assumes y: "yieldp p w"
  shows "yieldp p (frame w)"
proof -
  have "yieldp p (w\<lparr>hostq := filter (\<lambda>(i, src, c). src \<noteq> Raf) (hostq w)\<rparr>)"
    using y by (simp add: yieldp_def mine_def)
  then show ?thesis unfolding frame_def
    by (rule fold_preserves[rotated]) (auto intro: yieldp_runCb)
qed

lemma yieldp_deliver: "yieldp p w \<Longrightarrow> yieldp p (deliver ev w)"
  unfolding deliver_def
  by (rule fold_preserves[rotated]) (auto intro: yieldp_cleanup)

lemma yieldp_dispatch: "yieldp p w \<Longrightarrow> yieldp p (dispatch ev w)"
  by (simp add: dispatch_def yieldp_deliver)

lemma yieldp_step:
  assumes y: "yieldp p w"
  shows "yieldp p (step a w)"
proof (cases a)
  case (CallYield tag)
  then show ?thesis using yieldp_await[OF y, of "UserK tag"] by (simp add: splitLongTask_def split_beta)
next
  case (CallPush g args)
  have "yieldp p (snd (invokePush 0 (Patched g) args w))" using y by (rule yieldp_invokePush)
  then show ?thesis using CallPush by (simp add: patchDatalayer_def del: invokePush.simps)
next
  case (SetVisible b)
  then show ?thesis using y by (simp add: yieldp_def mine_def)
next
  case (Advance n)
  then show ?thesis using y by (simp add: yieldp_def mine_def)
qed (simp_all add: y yieldp_frame yieldp_fire yieldp_job yieldp_dispatch yieldp_splitLongIteration
      performAsyncUiUpdate_def yieldp_afterNextPaint yieldp_prefetchResources)

section \<open>Chunked iteration\<close>

lemma filter_isCall_about: "filter (isCall t) (filter (about t) es) = filter (isCall t) es"
proof (induction es)
  case Nil
  show ?case by simp
next
  case (Cons e es)
  then show ?case by (cases e) auto
qed

lemma same_calls: "same t w w' \<Longrightarrow> filter (isCall t) (trace w') = filter (isCall t) (trace w)"
  by (metis filter_isCall_about same_def)

lemma processed_append:
  "\<forall>x \<in> set seen. returns fn x \<Longrightarrow> processed fn (seen @ rest) = seen @ processed fn rest"
  by (induction seen) (auto simp: returns_def split: completion.splits)

lemma outcome_append:
  "\<forall>x \<in> set seen. returns fn x \<Longrightarrow> outcome fn (seen @ rest) = outcome fn rest"
  by (induction seen) (auto simp: returns_def split: completion.splits)

lemma expect0_snoc: "expect0 out (xs @ [x]) = expect0 out xs @ [Yielded out, Called out [x]]"
  by (simp add: expect0_def)

lemma yield_fresh_yieldp: "wf w \<Longrightarrow> yieldp (nextId w) (snd (yieldUnlessUrgent w))"
proof -
  assume w: "wf w"
  have f: "filter (\<lambda>(p, k). cont_target k = Some (nextId w)) (reactions w) = []"
    "settled w (nextId w) = Pending"
    using wf_fresh[OF w, of "nextId w"] by simp_all
  show ?thesis using f
    by (auto simp: yieldp_def mine_def yieldUnlessUrgent_def prims resolvePendingPromises_eq Let_def)
qed

lemma num_ge_zero: "t \<le> u \<Longrightarrow> num_ge u (num_add t (Num 0))"
  by simp

lemma num_ge_inf: "\<not> num_ge u (num_add t PosInfinity)"
  by simp

lemma iterLoop_own:
  assumes "wf w" and "own out w" and "mine out w = []" and "settled w out = Pending"
    and "filter (isCall out) (trace w) = map (\<lambda>x. Called out [x]) seen"
    and "\<forall>x \<in> set seen. returns fn x" and "items = seen @ todo"
    and "\<exists>t. deadline = num_add t limit \<and> t \<le> now w"
    and "limit = Num 0 \<longrightarrow> filter (about out) (trace w) = expect0 out seen"
    and "limit = PosInfinity \<longrightarrow> filter (about out) (trace w) = map (\<lambda>x. Called out [x]) seen"
  shows "iterInv out fn limit items (iterLoop out fn limit deadline todo w)"
  using assms
proof (induction todo arbitrary: w seen)
  case Nil
  have p: "processed fn items = seen" "outcome fn items = Fulfilled Undefined"
    using Nil.prems(6,7) processed_append[of seen fn "[]"] outcome_append[of seen fn "[]"] by simp_all
  show ?case
    using Nil.prems(2,3,4,5,9,10) p
    by (simp add: iterInv_def own_def mine_def resolvePromise_def)
next
  case (Cons item rest)
  obtain t where dl: "deadline = num_add t limit" and tn: "t \<le> now w" using Cons.prems(8) by blast
  show ?case
  proof (cases "num_ge (now w) deadline")
    case True
    let ?p = "nextId w"
    let ?w1 = "snd (yieldUnlessUrgent w)"
    let ?w2 = "?w1\<lparr>trace := trace ?w1 @ [Yielded out]\<rparr>"
    let ?W = "thenK ?p (IterK out fn limit item rest) ?w2"
    have res: "iterLoop out fn limit deadline (item # rest) w = ?W"
      using True by (simp add: splitLongTask_def split_beta fst_yield)
    have sm: "same out w ?w1" using Cons.prems(2) by (rule same_yield)
    have op: "out \<noteq> ?p" using Cons.prems(2) by (simp add: own_def)
    have o: "own out ?W" using sm by (simp add: same_def own_def thenK_def)
    have mi: "mine out ?W = [(?p, IterK out fn limit item rest)]"
      using sm Cons.prems(3) by (simp add: same_def mine_def thenK_def)
    have ca: "filter (isCall out) (trace ?W) = map (\<lambda>x. Called out [x]) seen"
      using same_calls[OF sm] Cons.prems(5) by (simp add: thenK_def)
    have st: "settled ?W out = Pending" using sm Cons.prems(4) by (simp add: same_def thenK_def)
    have "yieldp ?p ?w2" using yield_fresh_yieldp[OF Cons.prems(1)] by (rule yieldp_log)
    then have yp: "yieldp ?p ?W" by (rule yieldp_then) (use op in simp)
    have ni: "limit \<noteq> PosInfinity" using True dl by auto
    have ab: "filter (about out) (trace ?W) = filter (about out) (trace w) @ [Yielded out]"
      using sm by (simp add: same_def thenK_def)
    have z: "limit = Num 0 \<longrightarrow> filter (about out) (trace ?W) = expect0 out seen @ [Yielded out]"
    proof
      assume "limit = Num 0"
      then have "filter (about out) (trace w) = expect0 out seen" using Cons.prems(9) by blast
      then show "filter (about out) (trace ?W) = expect0 out seen @ [Yielded out]"
        unfolding ab by (rule arg_cong)
    qed
    have "\<exists>p item' rest' seen'.
          mine out ?W = [(p, IterK out fn limit item' rest')] \<and> items = seen' @ item' # rest' \<and>
          (\<forall>x \<in> set seen'. returns fn x) \<and>
          filter (isCall out) (trace ?W) = map (\<lambda>x. Called out [x]) seen' \<and>
          settled ?W out = Pending \<and> yieldp p ?W \<and> limit \<noteq> PosInfinity \<and>
          (limit = Num 0 \<longrightarrow> filter (about out) (trace ?W) = expect0 out seen' @ [Yielded out])"
      using mi Cons.prems(6,7) ca st yp ni z by blast
    then show ?thesis unfolding res iterInv_def using o by blast
  next
    case False
    have nz: "limit \<noteq> Num 0" using False dl tn by auto
    let ?w1 = "w\<lparr>now := now w + real (fst (fn [item])), trace := trace w @ [Called out [item]]\<rparr>"
    have cf: "callFn out fn [item] w = (snd (fn [item]), ?w1)" by (simp add: callFn_def)
    have lt: "out < nextId w" using Cons.prems(2) by (simp add: own_def)
    have wf1: "wf ?w1" using wf_callFn[OF Cons.prems(1) lt, of fn "[item]"] by (simp add: callFn_def)
    have o1: "own out ?w1" using Cons.prems(2) by (simp add: own_def)
    have m1: "mine out ?w1 = []" using Cons.prems(3) by (simp add: mine_def)
    have s1: "settled ?w1 out = Pending" using Cons.prems(4) by simp
    have c1: "filter (isCall out) (trace ?w1) = map (\<lambda>x. Called out [x]) (seen @ [item])"
      using Cons.prems(5) by simp
    have i1: "limit = PosInfinity \<longrightarrow>
        filter (about out) (trace ?w1) = map (\<lambda>x. Called out [x]) (seen @ [item])"
      using Cons.prems(10) by simp
    show ?thesis
    proof (cases "snd (fn [item])")
      case (Return v)
      have r1: "\<forall>x \<in> set (seen @ [item]). returns fn x"
        using Cons.prems(6) Return by (simp add: returns_def)
      have it: "items = (seen @ [item]) @ rest" using Cons.prems(7) by simp
      have d1: "\<exists>t. deadline = num_add t limit \<and> t \<le> now ?w1" using dl tn by auto
      have z1: "limit = Num 0 \<longrightarrow> filter (about out) (trace ?w1) = expect0 out (seen @ [item])"
        using nz by simp
      have "iterInv out fn limit items (iterLoop out fn limit deadline rest ?w1)"
        using wf1 o1 m1 s1 c1 r1 it d1 z1 i1 by (rule Cons.IH)
      then show ?thesis using False Return cf by simp
    next
      case (Throw e)
      have p: "processed fn items = seen @ [item]" "outcome fn items = Rejected e"
        using Cons.prems(6,7) Throw processed_append[of seen fn "item # rest"]
          outcome_append[of seen fn "item # rest"] by simp_all
      have "iterInv out fn limit items (rejectPromise out e ?w1)"
        using o1 m1 s1 c1 i1 nz p by (simp add: iterInv_def own_def mine_def rejectPromise_def)
      then show ?thesis using False Throw cf by simp
    qed
  qed
qed

lemma iterResume_own:
  assumes w: "wf w" and o: "own out w" and m: "mine out w = []" and s: "settled w out = Pending"
    and c: "filter (isCall out) (trace w) = map (\<lambda>x. Called out [x]) seen"
    and r: "\<forall>x \<in> set seen. returns fn x" and i: "items = seen @ item # rest"
    and ni: "limit \<noteq> PosInfinity"
    and z: "limit = Num 0 \<longrightarrow> filter (about out) (trace w) = expect0 out seen @ [Yielded out]"
  shows "iterInv out fn limit items (iterResume out fn limit item rest w)"
proof -
  let ?w1 = "w\<lparr>now := now w + real (fst (fn [item])), trace := trace w @ [Called out [item]]\<rparr>"
  have cf: "callFn out fn [item] w = (snd (fn [item]), ?w1)" by (simp add: callFn_def)
  have lt: "out < nextId w" using o by (simp add: own_def)
  have wf1: "wf ?w1" using wf_callFn[OF w lt, of fn "[item]"] by (simp add: callFn_def)
  have o1: "own out ?w1" using o by (simp add: own_def)
  have m1: "mine out ?w1 = []" using m by (simp add: mine_def)
  have s1: "settled ?w1 out = Pending" using s by simp
  have c1: "filter (isCall out) (trace ?w1) = map (\<lambda>x. Called out [x]) (seen @ [item])"
    using c by simp
  have z1: "limit = Num 0 \<longrightarrow> filter (about out) (trace ?w1) = expect0 out (seen @ [item])"
    using z by (simp add: expect0_snoc)
  have i1: "limit = PosInfinity \<longrightarrow>
      filter (about out) (trace ?w1) = map (\<lambda>x. Called out [x]) (seen @ [item])"
    using ni by simp
  show ?thesis
  proof (cases "snd (fn [item])")
    case (Return v)
    have r1: "\<forall>x \<in> set (seen @ [item]). returns fn x" using r Return by (simp add: returns_def)
    have it: "items = (seen @ [item]) @ rest" using i by simp
    have d1: "\<exists>t. num_add (now w) limit = num_add t limit \<and> t \<le> now ?w1"
      by (rule exI[of _ "now w"]) simp
    have "iterInv out fn limit items (iterLoop out fn limit (num_add (now w) limit) rest ?w1)"
      using wf1 o1 m1 s1 c1 r1 it d1 z1 i1 by (rule iterLoop_own)
    then show ?thesis using Return cf by (simp add: iterResume_def)
  next
    case (Throw e)
    have p: "processed fn items = seen @ [item]" "outcome fn items = Rejected e"
      using r i Throw processed_append[of seen fn "item # rest"]
        outcome_append[of seen fn "item # rest"] by simp_all
    have "limit = Num 0 \<longrightarrow> filter (about out) (trace ?w1) = expect0 out (processed fn items)"
      using z1 p by simp
    then have "iterInv out fn limit items (rejectPromise out e ?w1)"
      using o1 m1 s1 c1 ni p by (simp add: iterInv_def own_def mine_def rejectPromise_def)
    then show ?thesis using Throw cf by (simp add: iterResume_def)
  qed
qed

lemma iterInv_same:
  assumes i: "iterInv out fn limit items w" and s: "same out w w'"
    and y: "\<And>p. yieldp p w \<Longrightarrow> yieldp p w'"
  shows "iterInv out fn limit items w'"
proof -
  have e: "own out w'" "mine out w' = mine out w" "settled w' out = settled w out"
    "filter (about out) (trace w') = filter (about out) (trace w)"
    "filter (isCall out) (trace w') = filter (isCall out) (trace w)"
    using s same_calls[OF s] by (simp_all add: same_def)
  from i have "(\<exists>p item rest seen.
          mine out w = [(p, IterK out fn limit item rest)] \<and> items = seen @ item # rest \<and>
          (\<forall>x \<in> set seen. returns fn x) \<and>
          filter (isCall out) (trace w) = map (\<lambda>x. Called out [x]) seen \<and>
          settled w out = Pending \<and> yieldp p w \<and> limit \<noteq> PosInfinity \<and>
          (limit = Num 0 \<longrightarrow> filter (about out) (trace w) = expect0 out seen @ [Yielded out]))
       \<or>
       (mine out w = [] \<and>
        filter (isCall out) (trace w) = map (\<lambda>x. Called out [x]) (processed fn items) \<and>
        settled w out = outcome fn items \<and>
        (limit = Num 0 \<longrightarrow> filter (about out) (trace w) = expect0 out (processed fn items)) \<and>
        (limit = PosInfinity \<longrightarrow>
           filter (about out) (trace w) = map (\<lambda>x. Called out [x]) (processed fn items)))"
    by (simp add: iterInv_def)
  then show ?thesis
  proof
    assume "\<exists>p item rest seen.
          mine out w = [(p, IterK out fn limit item rest)] \<and> items = seen @ item # rest \<and>
          (\<forall>x \<in> set seen. returns fn x) \<and>
          filter (isCall out) (trace w) = map (\<lambda>x. Called out [x]) seen \<and>
          settled w out = Pending \<and> yieldp p w \<and> limit \<noteq> PosInfinity \<and>
          (limit = Num 0 \<longrightarrow> filter (about out) (trace w) = expect0 out seen @ [Yielded out])"
    then obtain p item rest seen where
      h: "mine out w = [(p, IterK out fn limit item rest)]" "items = seen @ item # rest"
          "\<forall>x \<in> set seen. returns fn x"
          "filter (isCall out) (trace w) = map (\<lambda>x. Called out [x]) seen"
          "settled w out = Pending" "yieldp p w" "limit \<noteq> PosInfinity"
          "limit = Num 0 \<longrightarrow> filter (about out) (trace w) = expect0 out seen @ [Yielded out]"
      by blast
    have "yieldp p w'" using h(6) by (rule y)
    then have "\<exists>p item rest seen.
          mine out w' = [(p, IterK out fn limit item rest)] \<and> items = seen @ item # rest \<and>
          (\<forall>x \<in> set seen. returns fn x) \<and>
          filter (isCall out) (trace w') = map (\<lambda>x. Called out [x]) seen \<and>
          settled w' out = Pending \<and> yieldp p w' \<and> limit \<noteq> PosInfinity \<and>
          (limit = Num 0 \<longrightarrow> filter (about out) (trace w') = expect0 out seen @ [Yielded out])"
      unfolding e using h by blast
    then show ?thesis using e(1) by (simp add: iterInv_def)
  next
    assume "mine out w = [] \<and>
        filter (isCall out) (trace w) = map (\<lambda>x. Called out [x]) (processed fn items) \<and>
        settled w out = outcome fn items \<and>
        (limit = Num 0 \<longrightarrow> filter (about out) (trace w) = expect0 out (processed fn items)) \<and>
        (limit = PosInfinity \<longrightarrow>
           filter (about out) (trace w) = map (\<lambda>x. Called out [x]) (processed fn items))"
    then show ?thesis using e by (simp add: iterInv_def)
  qed
qed

lemma iterInv_step:
  assumes w: "wf w" and i: "iterInv out fn limit items w"
  shows "iterInv out fn limit items (step a w)"
proof (cases "\<exists>q k rs. a = Job q \<and> takeReaction q (reactions w) = Some (k, rs) \<and> cont_target k = Some out")
  case False
  have o: "own out w" using i by (simp add: iterInv_def)
  have "same out w (step a w)" using o by (rule same_step) (use False in blast)
  with i show ?thesis by (rule iterInv_same) (rule yieldp_step)
next
  case True
  then obtain q k rs where a: "a = Job q" and t: "takeReaction q (reactions w) = Some (k, rs)"
    and c: "cont_target k = Some out" by blast
  have mem: "(q, k) \<in> set (reactions w)" "set rs \<subseteq> set (reactions w)"
    using takeReaction_mem[OF t] by simp_all
  then have "(q, k) \<in> set (mine out w)" using c by (simp add: mine_def)
  then have ne: "mine out w \<noteq> []" by auto
  then obtain p item rest seen where
    m: "mine out w = [(p, IterK out fn limit item rest)]" and it: "items = seen @ item # rest"
    and r: "\<forall>x \<in> set seen. returns fn x"
    and ca: "filter (isCall out) (trace w) = map (\<lambda>x. Called out [x]) seen"
    and st: "settled w out = Pending" and yp: "yieldp p w" and ni: "limit \<noteq> PosInfinity"
    and z: "limit = Num 0 \<longrightarrow> filter (about out) (trace w) = expect0 out seen @ [Yielded out]"
    using i unfolding iterInv_def by blast
  have o: "own out w" using i by (simp add: iterInv_def)
  have s: "(p, IterK out fn limit item rest) = (q, k) \<and> filter (\<lambda>(p, k). cont_target k = Some out) rs = []"
    using t c m unfolding mine_def by (rule takeReaction_mine_single)
  show ?thesis
  proof (cases "settled w q = Pending")
    case True
    then show ?thesis using a i by (simp add: job_def)
  next
    case False
    let ?w1 = "w\<lparr>reactions := rs, trace := trace w @ [Ran q]\<rparr>"
    have nr: "\<And>e. settled w q \<noteq> Rejected e" using yp s by (auto simp: yieldp_def)
    have j: "step a w = iterResume out fn limit item rest ?w1"
      using a t False s nr by (cases "settled w q") (auto simp: job_def)
    have wf1: "wf ?w1" using w mem(2) by (auto simp: wf_def)
    have o1: "own out ?w1" using o by (simp add: own_def)
    have m1: "mine out ?w1 = []" using s by (simp add: mine_def)
    have s1: "settled ?w1 out = Pending" using st by simp
    have c1: "filter (isCall out) (trace ?w1) = map (\<lambda>x. Called out [x]) seen" using ca by simp
    have z1: "limit = Num 0 \<longrightarrow> filter (about out) (trace ?w1) = expect0 out seen @ [Yielded out]"
      using z by simp
    show ?thesis unfolding j using wf1 o1 m1 s1 c1 r it ni z1 by (rule iterResume_own)
  qed
qed

lemma iterInv_exec:
  "wf w \<Longrightarrow> iterInv out fn limit items w \<Longrightarrow> iterInv out fn limit items (exec acts w)"
proof (induction acts arbitrary: w)
  case Nil
  then show ?case by (simp add: exec_def)
next
  case (Cons a acts)
  have "iterInv out fn limit items (exec acts (step a w))"
    using wf_step[OF Cons.prems(1)] iterInv_step[OF Cons.prems] by (rule Cons.IH)
  then show ?case by (simp add: exec_def)
qed

lemma iterInv_start:
  assumes w: "wf w"
  shows "iterInv (nextId w) fn limit items (snd (splitLongIteration items fn limit w))"
proof -
  let ?w0 = "snd (newPromise w)"
  have f: "nextId w \<notin> set (pendingResolvers w)"
    "list_all (\<lambda>h. cb_target (snd (snd h)) \<noteq> nextId w) (hostq w)"
    "filter (\<lambda>(p, k). cont_target k = Some (nextId w)) (reactions w) = []"
    "filter (about (nextId w)) (trace w) = []"
    "settled w (nextId w) = Pending"
    using wf_fresh[OF w, of "nextId w"] by simp_all
  have c0: "filter (isCall (nextId w)) (trace w) = []"
    using filter_isCall_about[of "nextId w" "trace w"] f(4) by simp
  have "iterInv (nextId w) fn limit items
          (iterLoop (nextId w) fn limit (num_add (now ?w0) limit) items ?w0)"
  proof (rule iterLoop_own[where seen = "[]"])
    show "wf ?w0" using w by (rule wf_newPromise)
    show "own (nextId w) ?w0" using f by (simp add: own_def newPromise_def)
    show "mine (nextId w) ?w0 = []" using f by (simp add: mine_def newPromise_def)
    show "settled ?w0 (nextId w) = Pending" using f by (simp add: newPromise_def)
    show "filter (isCall (nextId w)) (trace ?w0) = map (\<lambda>x. Called (nextId w) [x]) []"
      using c0 by (simp add: newPromise_def)
    show "\<forall>x \<in> set []. returns fn x" by simp
    show "items = [] @ items" by simp
    show "\<exists>t. num_add (now ?w0) limit = num_add t limit \<and> t \<le> now ?w0" by blast
    show "limit = Num 0 \<longrightarrow> filter (about (nextId w)) (trace ?w0) = expect0 (nextId w) []"
      using f by (simp add: newPromise_def expect0_def)
    show "limit = PosInfinity \<longrightarrow>
        filter (about (nextId w)) (trace ?w0) = map (\<lambda>x. Called (nextId w) [x]) []"
      using f by (simp add: newPromise_def)
  qed
  then show ?thesis by (simp add: splitLongIteration_def split_beta newPromise_def)
qed

lemma outcome_settled: "outcome fn items \<noteq> Pending"
  by (induction items) (auto split: completion.splits)

lemma trace_yield: "trace (snd (yieldUnlessUrgent w)) = trace w"
  by (simp add: yieldUnlessUrgent_def prims resolvePendingPromises_eq Let_def)

lemma iterLoop_calls_mono:
  "length (filter (isCall out) (trace w))
     \<le> length (filter (isCall out) (trace (iterLoop out fn limit deadline todo w)))"
proof (induction todo arbitrary: w)
  case Nil
  show ?case by (simp add: resolvePromise_def)
next
  case (Cons item rest)
  show ?case
  proof (cases "num_ge (now w) deadline")
    case True
    then show ?thesis by (simp add: splitLongTask_def split_beta thenK_def trace_yield)
  next
    case False
    let ?w1 = "w\<lparr>now := now w + real (fst (fn [item])), trace := trace w @ [Called out [item]]\<rparr>"
    have 1: "length (filter (isCall out) (trace w)) \<le> length (filter (isCall out) (trace ?w1))"
      by simp
    show ?thesis
    proof (cases "snd (fn [item])")
      case (Return v)
      have "length (filter (isCall out) (trace ?w1))
          \<le> length (filter (isCall out) (trace (iterLoop out fn limit deadline rest ?w1)))"
        by (rule Cons.IH)
      with 1 show ?thesis using False Return by (simp add: callFn_def)
    next
      case (Throw e)
      then show ?thesis using False by (simp add: callFn_def rejectPromise_def)
    qed
  qed
qed

lemma iterResume_calls_grow:
  "length (filter (isCall out) (trace w))
     < length (filter (isCall out) (trace (iterResume out fn limit item rest w)))"
proof -
  let ?w1 = "w\<lparr>now := now w + real (fst (fn [item])), trace := trace w @ [Called out [item]]\<rparr>"
  have 1: "length (filter (isCall out) (trace w)) < length (filter (isCall out) (trace ?w1))"
    by simp
  show ?thesis
  proof (cases "snd (fn [item])")
    case (Return v)
    have "length (filter (isCall out) (trace ?w1))
        \<le> length (filter (isCall out) (trace (iterLoop out fn limit (num_add (now w) limit) rest ?w1)))"
      by (rule iterLoop_calls_mono)
    with 1 show ?thesis using Return by (simp add: iterResume_def callFn_def)
  next
    case (Throw e)
    then show ?thesis by (simp add: iterResume_def callFn_def rejectPromise_def)
  qed
qed

lemma takeReaction_unique:
  "(p, k) \<in> set rs \<Longrightarrow> count_list (map fst rs) p \<le> 1 \<Longrightarrow> \<exists>rs'. takeReaction p rs = Some (k, rs')"
proof (induction rs)
  case Nil
  then show ?case by simp
next
  case (Cons r rs)
  obtain q' k' where r: "r = (q', k')" by (cases r)
  show ?case
  proof (cases "q' = p")
    case True
    then have "count_list (map fst rs) p = 0" using Cons.prems(2) r by simp
    then have "p \<notin> set (map fst rs)" by (simp add: count_list_0_iff)
    then have "(p, k) \<notin> set rs" by force
    then have "k' = k" using Cons.prems(1) r True by simp
    then show ?thesis using r True by simp
  next
    case False
    then have "(p, k) \<in> set rs" "count_list (map fst rs) p \<le> 1" using Cons.prems r by auto
    then obtain rs' where "takeReaction p rs = Some (k, rs')" using Cons.IH by blast
    then show ?thesis using r False by simp
  qed
qed

lemma iteration_can_finish:
  "wf w \<Longrightarrow> sound w \<Longrightarrow> guarded w \<Longrightarrow> iterInv out fn limit items w \<Longrightarrow>
   \<exists>acts. settled (exec acts w) out \<noteq> Pending"
proof (induction "length items - length (filter (isCall out) (trace w))" arbitrary: w rule: less_induct)
  case less
  show ?case
  proof (cases "mine out w = []")
    case True
    then have "settled w out = outcome fn items" using less.prems(4) by (auto simp: iterInv_def)
    then have "settled (exec [] w) out \<noteq> Pending" by (simp add: exec_def outcome_settled)
    then show ?thesis by blast
  next
    case False
    then obtain p item rest seen where
      m: "mine out w = [(p, IterK out fn limit item rest)]" and it: "items = seen @ item # rest"
      and ca: "filter (isCall out) (trace w) = map (\<lambda>x. Called out [x]) seen"
      and yp: "yieldp p w"
      using less.prems(4) unfolding iterInv_def by blast
    let ?w1 = "dispatch VisibilityChange w"
    let ?w2 = "job p ?w1"
    have o: "own out w" using less.prems(4) by (simp add: iterInv_def)
    have sm: "same out w ?w1" using o by (rule same_dispatch)
    have s1: "settled ?w1 p \<noteq> Pending"
    proof (cases "settled w p = Pending")
      case True
      then have "p \<in> set (pendingResolvers w)" using yp by (simp add: yieldp_def)
      then show ?thesis using dispatch_sweeps[OF less.prems(3)] by blast
    next
      case False
      then show ?thesis unfolding dispatch_VisibilityChange deliver_def by (rule sweep_keeps_settled)
    qed
    have i1: "iterInv out fn limit items ?w1"
      using iterInv_step[OF less.prems(1,4), of "Dispatch VisibilityChange"] by simp
    have w1: "wf ?w1" "sound ?w1" "guarded ?w1"
      using less.prems by (simp_all add: wf_dispatch sound_dispatch guarded_dispatch)
    have m1: "mine out ?w1 = [(p, IterK out fn limit item rest)]" using sm m by (simp add: same_def)
    then have "(p, IterK out fn limit item rest) \<in> set (mine out ?w1)" by simp
    then have mem: "(p, IterK out fn limit item rest) \<in> set (reactions ?w1)" by (simp add: mine_def)
    have "count_list (map fst (reactions ?w1)) p \<le> 1"
      using w1(2) unfolding sound_def once_def by (meson add_leD1)
    with mem obtain rs where t: "takeReaction p (reactions ?w1) = Some (IterK out fn limit item rest, rs)"
      using takeReaction_unique by blast
    have nr: "\<And>e. settled ?w1 p \<noteq> Rejected e"
      using yieldp_dispatch[OF yp, of VisibilityChange] by (simp add: yieldp_def)
    have j: "?w2 = iterResume out fn limit item rest (?w1\<lparr>reactions := rs, trace := trace ?w1 @ [Ran p]\<rparr>)"
      using t s1 nr by (cases "settled ?w1 p") (auto simp: job_def)
    have c1: "filter (isCall out) (trace ?w1) = filter (isCall out) (trace w)"
      using sm by (rule same_calls)
    have "length (filter (isCall out) (trace (?w1\<lparr>reactions := rs, trace := trace ?w1 @ [Ran p]\<rparr>)))
          < length (filter (isCall out) (trace ?w2))"
      unfolding j by (rule iterResume_calls_grow)
    then have grow: "length (filter (isCall out) (trace w)) < length (filter (isCall out) (trace ?w2))"
      using c1 by simp
    have lt: "length (filter (isCall out) (trace w)) < length items" using ca it by simp
    have i2: "iterInv out fn limit items ?w2"
      using iterInv_step[OF w1(1) i1, of "Job p"] by simp
    have w2: "wf ?w2" "sound ?w2" "guarded ?w2"
      using w1 by (simp_all add: wf_job sound_job guarded_job)
    have "length items - length (filter (isCall out) (trace ?w2))
          < length items - length (filter (isCall out) (trace w))"
      using grow lt by linarith
    then obtain acts where a: "settled (exec acts ?w2) out \<noteq> Pending"
      using less.hyps[OF _ w2 i2] by blast
    have "exec (Dispatch VisibilityChange # Job p # acts) w = exec acts ?w2"
      by (simp add: exec_def)
    then show ?thesis using a by metis
  qed
qed

lemma fst_splitLongIteration: "fst (splitLongIteration items fn limit w) = nextId w"
  by (simp add: splitLongIteration_def newPromise_def)

lemma iteration_reachable:
  "wf (exec acts (snd (splitLongIteration items fn limit (exec acts0 (init vis sy gu t))))) \<and>
   sound (exec acts (snd (splitLongIteration items fn limit (exec acts0 (init vis sy gu t))))) \<and>
   guarded (exec acts (snd (splitLongIteration items fn limit (exec acts0 (init vis sy gu t))))) \<and>
   iterInv (fst (splitLongIteration items fn limit (exec acts0 (init vis sy gu t)))) fn limit items
     (exec acts (snd (splitLongIteration items fn limit (exec acts0 (init vis sy gu t)))))"
proof -
  let ?w0 = "exec acts0 (init vis sy gu t)"
  let ?w1 = "snd (splitLongIteration items fn limit ?w0)"
  have a: "wf ?w0" using wf_init by (rule wf_exec)
  have b: "sound ?w0" using sound_init by (rule sound_exec)
  have c: "guarded ?w0" using guarded_init by (rule guarded_exec)
  have a1: "wf ?w1" using a by (rule wf_splitLongIteration)
  have b1: "sound ?w1" using b by (rule sound_splitLongIteration)
  have c1: "guarded ?w1" using c by (rule guarded_splitLongIteration)
  have i1: "iterInv (nextId ?w0) fn limit items ?w1" using a by (rule iterInv_start)
  show ?thesis
    using wf_exec[OF a1] sound_exec[OF b1] guarded_exec[OF c1] iterInv_exec[OF a1 i1]
    by (simp add: fst_splitLongIteration)
qed

lemma iterInv_settled:
  assumes "iterInv out fn limit items w" and "settled w out \<noteq> Pending"
  shows "mine out w = [] \<and>
         filter (isCall out) (trace w) = map (\<lambda>x. Called out [x]) (processed fn items) \<and>
         settled w out = outcome fn items \<and>
         (limit = Num 0 \<longrightarrow> filter (about out) (trace w) = expect0 out (processed fn items))"
  using assms unfolding iterInv_def by auto

lemma iterInv_pending:
  assumes "iterInv out fn limit items w" and "settled w out = Pending"
  shows "\<exists>seen item rest. items = seen @ item # rest \<and> (\<forall>x \<in> set seen. returns fn x) \<and>
          filter (isCall out) (trace w) = map (\<lambda>x. Called out [x]) seen \<and> limit \<noteq> PosInfinity \<and>
          (limit = Num 0 \<longrightarrow> filter (about out) (trace w) = expect0 out seen @ [Yielded out])"
proof -
  have "settled w out \<noteq> outcome fn items" using assms(2) outcome_settled[of fn items] by simp
  then show ?thesis using assms(1) unfolding iterInv_def by blast
qed

lemma iteration_finishes:
  assumes "wf w" and "sound w" and "guarded w" and "iterInv out fn limit items w"
  shows "\<exists>more. settled (exec more w) out = outcome fn items \<and>
           filter (isCall out) (trace (exec more w)) = map (\<lambda>x. Called out [x]) (processed fn items)"
proof -
  obtain more where m: "settled (exec more w) out \<noteq> Pending"
    using iteration_can_finish[OF assms] by blast
  have "iterInv out fn limit items (exec more w)" using assms(1,4) by (rule iterInv_exec)
  then show ?thesis using iterInv_settled[OF _ m] by blast
qed

lemma processed_all: "\<forall>x \<in> set items. returns fn x \<Longrightarrow> processed fn items = items"
  using processed_append[of items fn "[]"] by simp

lemma outcome_all: "\<forall>x \<in> set items. returns fn x \<Longrightarrow> outcome fn items = Fulfilled Undefined"
  using outcome_append[of items fn "[]"] by simp

text \<open>
  Claim C1. The page is in any reachable state when \<^verbatim>\<open>splitLongIteration(items, fn, limit)\<close>
  is called, \<^verbatim>\<open>fn\<close> throws on none of the items, \<open>limit\<close> is any number (also negative,
  infinite or NaN), and anything happens afterwards (\<open>acts\<close>). Then at every moment the calls
  of \<^verbatim>\<open>fn\<close> made so far are the items of a prefix of \<open>items\<close>, one call each, in order; once
  the returned promise is settled it is fulfilled and \<^verbatim>\<open>fn\<close> has been called on every item;
  and from every such moment the host can make the iteration finish that way. With
  \<open>limit = 0\<close> there is a yield before every call (and one pending while the promise is);
  with \<open>limit = Infinity\<close> the iteration is over when the call returns and has never yielded.
\<close>

theorem splitLongIteration_calls_each_item_once_in_order:
  fixes items :: "jsval list" and fn :: userfn and limit :: jsnum
    and acts0 acts :: "action list" and vis sy :: bool and gu :: "jsval option" and t :: real
  defines "w0 \<equiv> exec acts0 (init vis sy gu t)"
  defines "out \<equiv> fst (splitLongIteration items fn limit w0)"
  defines "w \<equiv> exec acts (snd (splitLongIteration items fn limit w0))"
  assumes nothrow: "\<forall>x \<in> set items. returns fn x"
  shows
    "(\<exists>seen rest. items = seen @ rest \<and>
        filter (isCall out) (trace w) = map (\<lambda>x. Called out [x]) seen \<and>
        (limit = Num 0 \<longrightarrow>
           filter (about out) (trace w)
             = expect0 out seen @ (if settled w out = Pending then [Yielded out] else []))) \<and>
     (settled w out = Pending \<or>
        settled w out = Fulfilled Undefined \<and>
        filter (isCall out) (trace w) = map (\<lambda>x. Called out [x]) items) \<and>
     (\<exists>more. settled (exec more w) out = Fulfilled Undefined \<and>
        filter (isCall out) (trace (exec more w)) = map (\<lambda>x. Called out [x]) items) \<and>
     (limit = PosInfinity \<longrightarrow>
        settled w out = Fulfilled Undefined \<and>
        filter (about out) (trace w) = map (\<lambda>x. Called out [x]) items)"
proof -
  have r: "wf w" "sound w" "guarded w" "iterInv out fn limit items w"
    using iteration_reachable[of acts items fn limit acts0 vis sy gu t]
    unfolding w_def out_def w0_def by simp_all
  have p: "processed fn items = items" "outcome fn items = Fulfilled Undefined"
    using nothrow by (simp_all add: processed_all outcome_all)
  have fin: "\<exists>more. settled (exec more w) out = Fulfilled Undefined \<and>
        filter (isCall out) (trace (exec more w)) = map (\<lambda>x. Called out [x]) items"
    using iteration_finishes[OF r] p by simp
  have inf: "limit = PosInfinity \<Longrightarrow> settled w out = Fulfilled Undefined \<and>
        filter (about out) (trace w) = map (\<lambda>x. Called out [x]) items"
    using r(4) p unfolding iterInv_def by auto
  show ?thesis
  proof (cases "settled w out = Pending")
    case True
    obtain seen item rest where
      h: "items = seen @ item # rest"
         "filter (isCall out) (trace w) = map (\<lambda>x. Called out [x]) seen"
         "limit \<noteq> PosInfinity"
         "limit = Num 0 \<longrightarrow> filter (about out) (trace w) = expect0 out seen @ [Yielded out]"
      using iterInv_pending[OF r(4) True] by blast
    have "\<exists>seen rest. items = seen @ rest \<and>
        filter (isCall out) (trace w) = map (\<lambda>x. Called out [x]) seen \<and>
        (limit = Num 0 \<longrightarrow>
           filter (about out) (trace w)
             = expect0 out seen @ (if settled w out = Pending then [Yielded out] else []))"
      using h True by (intro exI[of _ seen] exI[of _ "item # rest"]) simp
    then show ?thesis using True fin h(3) by blast
  next
    case False
    note s = iterInv_settled[OF r(4) False]
    have "\<exists>seen rest. items = seen @ rest \<and>
        filter (isCall out) (trace w) = map (\<lambda>x. Called out [x]) seen \<and>
        (limit = Num 0 \<longrightarrow>
           filter (about out) (trace w)
             = expect0 out seen @ (if settled w out = Pending then [Yielded out] else []))"
      using s p False by (intro exI[of _ items] exI[of _ "[]"]) simp
    moreover have "settled w out = Fulfilled Undefined \<and>
        filter (isCall out) (trace w) = map (\<lambda>x. Called out [x]) items"
      using s p by simp
    ultimately show ?thesis using fin inf by blast
  qed
qed

text \<open>
  Two items with \<open>limit = 0\<close> on a visible page, resumed twice by frame and timer; and the
  same items with \<open>limit = Infinity\<close>.
\<close>

theorem splitLongIteration_witness:
  "returns echo (JNum 1) \<and> returns echo (JNum 2) \<and>
   trace (exec [Frame, Fire 3, Job 1, Frame, Fire 6, Job 4]
      (snd (splitLongIteration [JNum 1, JNum 2] echo (Num 0) (init True False None 0))))
     = [Yielded 0, Ran 1, Called 0 [JNum 1], Yielded 0, Ran 4, Called 0 [JNum 2]] \<and>
   settled (exec [Frame, Fire 3, Job 1, Frame, Fire 6, Job 4]
      (snd (splitLongIteration [JNum 1, JNum 2] echo (Num 0) (init True False None 0)))) 0
     = Fulfilled Undefined \<and>
   filter (isCall 0) (trace (exec [Frame, Fire 3, Job 1, Frame, Fire 6, Job 4]
      (snd (splitLongIteration [JNum 1, JNum 2] echo (Num 0) (init True False None 0)))))
     = [Called 0 [JNum 1], Called 0 [JNum 2]] \<and>
   settled (snd (splitLongIteration [JNum 1, JNum 2] echo PosInfinity (init True False None 0))) 0
     = Fulfilled Undefined \<and>
   filter (about 0) (trace (snd (splitLongIteration [JNum 1, JNum 2] echo PosInfinity (init True False None 0))))
     = [Called 0 [JNum 1], Called 0 [JNum 2]]"
proof -
  have h: "\<forall>x \<in> set [JNum 1, JNum 2]. returns echo x" by (simp add: returns_def echo_def)
  have o: "fst (splitLongIteration [JNum 1, JNum 2] echo (Num 0) (init True False None 0)) = 0"
    "fst (splitLongIteration [JNum 1, JNum 2] echo PosInfinity (init True False None 0)) = 0"
    by (simp_all add: fst_splitLongIteration init_def)
  have tr: "trace (exec [Frame, Fire 3, Job 1, Frame, Fire 6, Job 4]
      (snd (splitLongIteration [JNum 1, JNum 2] echo (Num 0) (init True False None 0))))
     = [Yielded 0, Ran 1, Called 0 [JNum 1], Yielded 0, Ran 4, Called 0 [JNum 2]]"
    by (simp add: evals splitLongIteration_def iterResume_def echo_def)
  have s: "settled (exec [Frame, Fire 3, Job 1, Frame, Fire 6, Job 4]
      (snd (splitLongIteration [JNum 1, JNum 2] echo (Num 0) (init True False None 0)))) 0
     = Fulfilled Undefined"
    by (simp add: evals splitLongIteration_def iterResume_def echo_def)
  show ?thesis
    using h tr s o
      splitLongIteration_calls_each_item_once_in_order[where items = "[JNum 1, JNum 2]" and fn = echo
        and limit = "Num 0" and ?acts0.0 = "[]" and vis = True and sy = False and gu = None and t = 0
        and acts = "[Frame, Fire 3, Job 1, Frame, Fire 6, Job 4]", OF h]
      splitLongIteration_calls_each_item_once_in_order[where items = "[JNum 1, JNum 2]" and fn = echo
        and limit = PosInfinity and ?acts0.0 = "[]" and vis = True and sy = False and gu = None and t = 0
        and acts = "[]", OF h]
    by (simp add: exec_def)
qed

lemma prefix_of_throw:
  assumes "seen @ item # rest = pre @ x # post" and "\<forall>y \<in> set seen. returns fn y"
    and "\<not> returns fn x"
  shows "\<exists>r. pre @ [x] = seen @ r"
proof -
  from assms(1) obtain us where
    "(seen = pre @ us \<and> us @ item # rest = x # post) \<or> (seen @ us = pre \<and> item # rest = us @ x # post)"
    unfolding append_eq_append_conv2 by blast
  then show ?thesis
  proof
    assume a: "seen = pre @ us \<and> us @ item # rest = x # post"
    show ?thesis
    proof (cases us)
      case Nil
      then show ?thesis using a by simp
    next
      case (Cons u us')
      then have "x \<in> set seen" using a by simp
      then show ?thesis using assms(2,3) by blast
    qed
  next
    assume "seen @ us = pre \<and> item # rest = us @ x # post"
    then have "pre @ [x] = seen @ (us @ [x])" by auto
    then show ?thesis by blast
  qed
qed

text \<open>
  Claim C7. Same setting, but \<^verbatim>\<open>fn\<close> throws \<open>e\<close> on the item \<open>x\<close> and on none of the items
  \<open>pre\<close> before it. Then \<^verbatim>\<open>fn\<close> is never called on an item after \<open>x\<close> (the calls made are
  always a prefix of \<open>pre @ [x]\<close>); once the returned promise is settled it is rejected with
  that same \<open>e\<close>; and from every moment the host can make the iteration end that way.
\<close>

theorem splitLongIteration_rejects_at_first_throw:
  fixes pre post :: "jsval list" and x :: jsval and fn :: userfn and limit :: jsnum
    and acts0 acts :: "action list" and vis sy :: bool and gu :: "jsval option" and t :: real
  defines "w0 \<equiv> exec acts0 (init vis sy gu t)"
  defines "out \<equiv> fst (splitLongIteration (pre @ x # post) fn limit w0)"
  defines "w \<equiv> exec acts (snd (splitLongIteration (pre @ x # post) fn limit w0))"
  assumes before: "\<forall>y \<in> set pre. returns fn y" and throws: "snd (fn [x]) = Throw e"
  shows
    "(\<exists>seen rest. pre @ [x] = seen @ rest \<and>
        filter (isCall out) (trace w) = map (\<lambda>y. Called out [y]) seen) \<and>
     (settled w out = Pending \<or>
        settled w out = Rejected e \<and>
        filter (isCall out) (trace w) = map (\<lambda>y. Called out [y]) (pre @ [x])) \<and>
     (\<exists>more. settled (exec more w) out = Rejected e \<and>
        filter (isCall out) (trace (exec more w)) = map (\<lambda>y. Called out [y]) (pre @ [x]))"
proof -
  have r: "wf w" "sound w" "guarded w" "iterInv out fn limit (pre @ x # post) w"
    using iteration_reachable[of acts "pre @ x # post" fn limit acts0 vis sy gu t]
    unfolding w_def out_def w0_def by simp_all
  have p: "processed fn (pre @ x # post) = pre @ [x]" "outcome fn (pre @ x # post) = Rejected e"
    using before throws processed_append[of pre fn "x # post"] outcome_append[of pre fn "x # post"]
    by simp_all
  have nx: "\<not> returns fn x" using throws by (simp add: returns_def)
  have fin: "\<exists>more. settled (exec more w) out = Rejected e \<and>
        filter (isCall out) (trace (exec more w)) = map (\<lambda>y. Called out [y]) (pre @ [x])"
    using iteration_finishes[OF r] p by simp
  show ?thesis
  proof (cases "settled w out = Pending")
    case True
    obtain seen item rest where
      h: "pre @ x # post = seen @ item # rest" "\<forall>y \<in> set seen. returns fn y"
         "filter (isCall out) (trace w) = map (\<lambda>y. Called out [y]) seen"
      using iterInv_pending[OF r(4) True] by blast
    obtain r' where "pre @ [x] = seen @ r'" using prefix_of_throw[OF h(1)[symmetric] h(2) nx] by blast
    then have "\<exists>seen rest. pre @ [x] = seen @ rest \<and>
        filter (isCall out) (trace w) = map (\<lambda>y. Called out [y]) seen"
      using h(3) by blast
    then show ?thesis using True fin by blast
  next
    case False
    note s = iterInv_settled[OF r(4) False]
    have "pre @ [x] = (pre @ [x]) @ [] \<and>
        filter (isCall out) (trace w) = map (\<lambda>y. Called out [y]) (pre @ [x])"
      using s p by simp
    then have "\<exists>seen rest. pre @ [x] = seen @ rest \<and>
        filter (isCall out) (trace w) = map (\<lambda>y. Called out [y]) seen"
      by blast
    moreover have "settled w out = Rejected e \<and>
        filter (isCall out) (trace w) = map (\<lambda>y. Called out [y]) (pre @ [x])"
      using s p by simp
    ultimately show ?thesis using fin by blast
  qed
qed

text \<open>Three items, the second throws; \<open>limit = Infinity\<close>, so the call itself runs into it.\<close>

theorem splitLongIteration_throw_witness:
  "returns failing (JNum 1) \<and> snd (failing [JNum 2]) = Throw (JStr ''boom'') \<and>
   settled (snd (splitLongIteration [JNum 1, JNum 2, JNum 3] failing PosInfinity (init True False None 0))) 0
     = Rejected (JStr ''boom'') \<and>
   filter (isCall 0) (trace (snd (splitLongIteration [JNum 1, JNum 2, JNum 3] failing PosInfinity
      (init True False None 0))))
     = [Called 0 [JNum 1], Called 0 [JNum 2]]"
proof -
  have h: "\<forall>y \<in> set [JNum 1]. returns failing y" by (simp add: returns_def failing_def)
  have th: "snd (failing [JNum 2]) = Throw (JStr ''boom'')" by (simp add: failing_def)
  have o: "fst (splitLongIteration [JNum 1, JNum 2, JNum 3] failing PosInfinity (init True False None 0)) = 0"
    by (simp add: fst_splitLongIteration init_def)
  have s: "settled (snd (splitLongIteration [JNum 1, JNum 2, JNum 3] failing PosInfinity
      (init True False None 0))) 0 \<noteq> Pending"
    by (simp add: evals splitLongIteration_def failing_def)
  show ?thesis
    using h th s o
      splitLongIteration_rejects_at_first_throw[where pre = "[JNum 1]" and x = "JNum 2" and post = "[JNum 3]"
        and fn = failing and e = "JStr ''boom''" and limit = PosInfinity and ?acts0.0 = "[]"
        and vis = True and sy = False and gu = None and t = 0 and acts = "[]", OF h th]
    by (simp add: exec_def)
qed

end
